theory Spec2Isabelle
  imports Main
begin

section \<open>Values and errors of the upload module\<close>

text \<open>
  The module under study is the multipart upload client (\<^verbatim>\<open>upload-to-r2.ts\<close>).
  JavaScript numbers that count bytes, parts and indices are modelled as unbounded
  integers (they are exact below \<open>2^53\<close>); strings are lists of 8-bit characters.
  Every \<^verbatim>\<open>throw\<close> and every rejected promise is a value of type \<open>error\<close>.
\<close>

datatype error =
    Error string
  | InvalidCharacterError
  | FetchRejected
  | JsonRejected

datatype jsnum = Num int | NaN | PosInfinity | NegInfinity

record Blob =
  bytes :: "nat list"
  type :: string

definition blob_size :: "Blob \<Rightarrow> int" where
  "blob_size b = int (length (bytes b))"

text \<open>\<^verbatim>\<open>Blob.slice(start, end)\<close>: both offsets are clamped into the blob, a negative one
  counts from the end, and the slice carries no content type.\<close>

definition blob_slice :: "Blob \<Rightarrow> int \<Rightarrow> int \<Rightarrow> Blob" where
  "blob_slice b start stop =
     (let sz = blob_size b;
          relativeStart = (if start < 0 then max (sz + start) 0 else min start sz);
          relativeEnd = (if stop < 0 then max (sz + stop) 0 else min stop sz);
          span = max (relativeEnd - relativeStart) 0
      in \<lparr>bytes = take (nat span) (drop (nat relativeStart) (bytes b)), type = []\<rparr>)"

subsection \<open>Decimal rendering of numbers in template strings\<close>

definition digit_char :: "nat \<Rightarrow> char" where
  "digit_char d = char_of (48 + d)"

fun string_of_nat :: "nat \<Rightarrow> string" where
  "string_of_nat n =
     (if n < 10 then [digit_char n] else string_of_nat (n div 10) @ [digit_char (n mod 10)])"

declare string_of_nat.simps [simp del]

definition String :: "int \<Rightarrow> string" where
  "String i = (if i < 0 then CHR ''-'' # string_of_nat (nat (- i)) else string_of_nat (nat i))"

subsection \<open>The platform's \<^verbatim>\<open>atob\<close>: forgiving base64 decoding\<close>

definition ascii_whitespace :: "char \<Rightarrow> bool" where
  "ascii_whitespace c = (of_char c \<in> {9::nat, 10, 12, 13, 32})"

definition strip_padding :: "string \<Rightarrow> string" where
  "strip_padding d =
     (case rev d of
        a # b # r \<Rightarrow> if a = CHR ''='' \<and> b = CHR ''='' then rev r
                     else if a = CHR ''='' then rev (b # r) else d
      | [a] \<Rightarrow> if a = CHR ''='' then [] else d
      | [] \<Rightarrow> d)"

definition b64_value :: "char \<Rightarrow> nat option" where
  "b64_value c =
     (let n = (of_char c :: nat) in
      if 65 \<le> n \<and> n \<le> 90 then Some (n - 65)
      else if 97 \<le> n \<and> n \<le> 122 then Some (n - 71)
      else if 48 \<le> n \<and> n \<le> 57 then Some (n + 4)
      else if n = 43 then Some 62
      else if n = 47 then Some 63
      else None)"

fun b64_bytes :: "nat list \<Rightarrow> nat list" where
  "b64_bytes (a # b # c # d # rest) =
     (a * 4 + b div 16) # ((b mod 16) * 16 + c div 4) # ((c mod 4) * 64 + d) # b64_bytes rest"
| "b64_bytes [a, b, c] = [a * 4 + b div 16, (b mod 16) * 16 + c div 4]"
| "b64_bytes [a, b] = [a * 4 + b div 16]"
| "b64_bytes _ = []"

fun b64_values :: "string \<Rightarrow> nat list option" where
  "b64_values [] = Some []"
| "b64_values (c # cs) =
     (case b64_value c of
        None \<Rightarrow> None
      | Some v \<Rightarrow> (case b64_values cs of None \<Rightarrow> None | Some vs \<Rightarrow> Some (v # vs)))"

definition atob :: "string \<Rightarrow> error + nat list" where
  "atob data =
     (let d1 = filter (\<lambda>c. \<not> ascii_whitespace c) data;
          d2 = (if length d1 mod 4 = 0 then strip_padding d1 else d1)
      in if length d2 mod 4 = 1 then Inl InvalidCharacterError
         else (case b64_values d2 of
                 None \<Rightarrow> Inl InvalidCharacterError
               | Some vs \<Rightarrow> Inr (b64_bytes vs)))"

subsection \<open>\<^verbatim>\<open>dataUrlToBlob\<close>\<close>

fun split_comma_acc :: "string \<Rightarrow> string \<Rightarrow> string list" where
  "split_comma_acc acc [] = [rev acc]"
| "split_comma_acc acc (c # cs) =
     (if c = CHR '','' then rev acc # split_comma_acc [] cs else split_comma_acc (c # acc) cs)"

definition split_comma :: "string \<Rightarrow> string list" where
  "split_comma s = split_comma_acc [] s"

definition line_terminator :: "char \<Rightarrow> bool" where
  "line_terminator c = (of_char c \<in> {10::nat, 13})"

fun lazy_until_semicolon :: "string \<Rightarrow> string option" where
  "lazy_until_semicolon [] = None"
| "lazy_until_semicolon (c # cs) =
     (if c = CHR '';'' then Some []
      else if line_terminator c then None
      else (case lazy_until_semicolon cs of None \<Rightarrow> None | Some g \<Rightarrow> Some (c # g)))"

fun match_content_type :: "string \<Rightarrow> string option" where
  "match_content_type [] = None"
| "match_content_type (c # cs) =
     (if c = CHR '':'' then
        (case lazy_until_semicolon cs of Some g \<Rightarrow> Some g | None \<Rightarrow> match_content_type cs)
      else match_content_type cs)"

text \<open>The \<^verbatim>\<open>Blob\<close> constructor normalises the type it is given: a type with a character outside
  U+0020 to U+007E becomes the empty string, any other type is converted to ASCII lower
  case.\<close>

definition ascii_lower :: "char \<Rightarrow> char" where
  "ascii_lower c =
     (let n = (of_char c :: nat) in if 65 \<le> n \<and> n \<le> 90 then char_of (n + 32) else c)"

definition blob_type :: "string \<Rightarrow> string" where
  "blob_type t =
     (if list_all (\<lambda>c. 32 \<le> (of_char c :: nat) \<and> (of_char c :: nat) \<le> 126) t
      then map ascii_lower t else [])"

definition dataUrlToBlob :: "string \<Rightarrow> error + Blob" where
  "dataUrlToBlob dataUrl =
     (let parts = split_comma dataUrl;
          contentType = (case match_content_type (hd parts) of
                           None \<Rightarrow> ''image/png''
                         | Some g \<Rightarrow> if g = [] then ''image/png'' else g);
          base64 = (case parts of _ # b # _ \<Rightarrow> b | _ \<Rightarrow> ''undefined'')
      in case atob base64 of
           Inl e \<Rightarrow> Inl e
         | Inr binary \<Rightarrow> Inr \<lparr>bytes = binary, type = blob_type contentType\<rparr>)"

section \<open>Requests, responses and the observable events of an upload\<close>

record MultipartSession =
  uploadId :: string
  key :: string
  partSize :: int
  totalParts :: int

record Part =
  PartNumber :: int
  ETag :: string

text \<open>The requests the module issues with \<^verbatim>\<open>fetch\<close>; the first argument of the
  coordinator requests is the bearer credential sent in the headers.\<close>

datatype request =
    CreateReq string string string int
  | SignReq string string string string
  | PutReq string Blob
  | CompleteReq string string string "Part list"
  | AbortReq string string string

text \<open>What an observer sees of one upload, in order: a request whose answer is awaited, a
  backoff timer, an invocation of the per-file progress callback, a console warning.\<close>

datatype event =
    Fetch request
  | Sleep int
  | OnProgress int int
  | ConsoleWarn

text \<open>The answers of the environment. A \<^verbatim>\<open>fetch\<close> either rejects or resolves to a response;
  of a response only what the module reads is kept: the \<^verbatim>\<open>ok\<close> flag, the status text, the
  \<^verbatim>\<open>ETag\<close> header and the parsed JSON body.\<close>

datatype sign_result = SignRejected | SignNotOk string | SignBadJson | SignOk string

datatype put_result = PutRejected | PutNotOk string | PutOk "string option"

datatype json_error = BadJson | ErrorBody "string option"

datatype create_result =
  CreateRejected | CreateNotOk json_error | CreateOkBadJson | CreateOk MultipartSession

datatype complete_result = CompleteRejected | CompleteNotOk json_error | CompleteOk

datatype abort_result = AbortRejected | AbortResolved

record file_script =
  create_response :: create_result
  part_response :: "int \<Rightarrow> nat \<Rightarrow> sign_result \<times> put_result"
  complete_response :: complete_result
  abort_response :: abort_result

text \<open>\<^verbatim>\<open>const error = await response.json(); throw new Error(error.error || fallback)\<close>\<close>

definition error_of_body :: "json_error \<Rightarrow> string \<Rightarrow> error" where
  "error_of_body body fallback =
     (case body of
        BadJson \<Rightarrow> JsonRejected
      | ErrorBody None \<Rightarrow> Error fallback
      | ErrorBody (Some m) \<Rightarrow> if m = [] then Error fallback else Error m)"

section \<open>\<^verbatim>\<open>uploadPart\<close>\<close>

text \<open>The body of the \<^verbatim>\<open>try\<close> block: one attempt asks for a signed URL and, if it gets one,
  PUTs the bytes and reads the entity tag with its quotes removed.\<close>

definition upload_attempt ::
  "string \<Rightarrow> string \<Rightarrow> string \<Rightarrow> int \<Rightarrow> Blob \<Rightarrow> sign_result \<times> put_result
    \<Rightarrow> event list \<times> (error + Part)" where
  "upload_attempt authHeaders k uid partNumber data r =
     (let signReq = Fetch (SignReq authHeaders k uid (String partNumber)) in
      case fst r of
        SignRejected \<Rightarrow> ([signReq], Inl FetchRejected)
      | SignNotOk statusText \<Rightarrow>
          ([signReq], Inl (Error (''Failed to get upload URL: '' @ statusText)))
      | SignBadJson \<Rightarrow> ([signReq], Inl JsonRejected)
      | SignOk url \<Rightarrow>
          (let putReq = Fetch (PutReq url data) in
           case snd r of
             PutRejected \<Rightarrow> ([signReq, putReq], Inl FetchRejected)
           | PutNotOk statusText \<Rightarrow>
               ([signReq, putReq],
                Inl (Error (''Failed to upload part '' @ String partNumber @ '': '' @ statusText)))
           | PutOk header \<Rightarrow>
               (case map_option (filter (\<lambda>c. c \<noteq> CHR 0x22)) header of
                  None \<Rightarrow> ([signReq, putReq], Inl (Error ''Missing ETag in upload response''))
                | Some etag \<Rightarrow>
                    if etag = [] then
                      ([signReq, putReq], Inl (Error ''Missing ETag in upload response''))
                    else ([signReq, putReq], Inr \<lparr>PartNumber = partNumber, ETag = etag\<rparr>))))"

definition backoff_delay :: "nat \<Rightarrow> int" where
  "backoff_delay attempt = min (1000 * 2 ^ attempt) 10000"

text \<open>The retry loop \<^verbatim>\<open>for (let attempt = 0; attempt < maxRetries; attempt++)\<close> around the
  attempt; \<open>body\<close> is the attempt as a function of its number.\<close>

function uploadPart_loop ::
  "(nat \<Rightarrow> event list \<times> (error + Part)) \<Rightarrow> nat \<Rightarrow> nat \<Rightarrow> error option
    \<Rightarrow> event list \<times> (error + Part)" where
  "uploadPart_loop body maxRetries attempt lastError =
     (if attempt < maxRetries then
        (case body attempt of
           (evs, Inr part) \<Rightarrow> (evs, Inr part)
         | (evs, Inl e) \<Rightarrow>
             (let wait = (if int attempt < int maxRetries - 1
                          then [Sleep (backoff_delay attempt)] else []);
                  rest = uploadPart_loop body maxRetries (attempt + 1) (Some e)
              in (evs @ wait @ fst rest, snd rest)))
      else ([], Inl (case lastError of
                       Some e \<Rightarrow> e
                     | None \<Rightarrow> Error ''Failed to upload part after retries'')))"
  by pat_completeness auto
termination
  by (relation "measure (\<lambda>(body, maxRetries, attempt, lastError). maxRetries - attempt)") auto

declare uploadPart_loop.simps [simp del]

definition uploadPart ::
  "string \<Rightarrow> string \<Rightarrow> string \<Rightarrow> int \<Rightarrow> Blob \<Rightarrow> (nat \<Rightarrow> sign_result \<times> put_result) \<Rightarrow> nat
    \<Rightarrow> event list \<times> (error + Part)" where
  "uploadPart authHeaders k uid partNumber data resp maxRetries =
     uploadPart_loop (\<lambda>attempt. upload_attempt authHeaders k uid partNumber data (resp attempt))
       maxRetries 0 None"

section \<open>\<^verbatim>\<open>uploadScreenshot\<close>\<close>

text \<open>The loop over the parts, \<^verbatim>\<open>for (let partNumber = 1; partNumber <= totalParts; partNumber++)\<close>.
  \<open>cb\<close> says whether a progress callback was passed.\<close>

function upload_parts ::
  "string \<Rightarrow> Blob \<Rightarrow> MultipartSession \<Rightarrow> (int \<Rightarrow> nat \<Rightarrow> sign_result \<times> put_result) \<Rightarrow> bool
    \<Rightarrow> int \<Rightarrow> Part list \<Rightarrow> event list \<times> (error + Part list)" where
  "upload_parts authHeaders blob sess resp cb partNumber completedParts =
     (if partNumber \<le> totalParts sess then
        (let start = (partNumber - 1) * partSize sess;
             stop = min (start + partSize sess) (blob_size blob);
             partBlob = blob_slice blob start stop
         in case uploadPart authHeaders (key sess) (uploadId sess) partNumber partBlob
                   (resp partNumber) 3 of
              (evs, Inl e) \<Rightarrow> (evs, Inl e)
            | (evs, Inr part) \<Rightarrow>
                (let report = (if cb then
                                 [OnProgress (min (partNumber * partSize sess) (blob_size blob))
                                    (blob_size blob)]
                               else []);
                     rest = upload_parts authHeaders blob sess resp cb (partNumber + 1)
                              (completedParts @ [part])
                 in (evs @ report @ fst rest, snd rest)))
      else ([], Inr completedParts))"
  by pat_completeness auto
termination
  by (relation "measure (\<lambda>(authHeaders, blob, sess, resp, cb, partNumber, completedParts).
                   nat (totalParts sess + 1 - partNumber))") auto

declare upload_parts.simps [simp del]

definition uploadScreenshot ::
  "string \<Rightarrow> string \<Rightarrow> string \<Rightarrow> bool \<Rightarrow> file_script \<Rightarrow> event list \<times> (error + string)" where
  "uploadScreenshot dataUrl filename authHeaders cb script =
     (case dataUrlToBlob dataUrl of
        Inl e \<Rightarrow> ([], Inl e)
      | Inr blob \<Rightarrow>
          (let createReq = Fetch (CreateReq authHeaders filename ''image/png'' (blob_size blob)) in
           case create_response script of
             CreateRejected \<Rightarrow> ([createReq], Inl FetchRejected)
           | CreateNotOk body \<Rightarrow>
               ([createReq], Inl (error_of_body body ''Failed to create upload session''))
           | CreateOkBadJson \<Rightarrow> ([createReq], Inl JsonRejected)
           | CreateOk sess \<Rightarrow>
               (case upload_parts authHeaders blob sess (part_response script) cb 1 [] of
                  (evs, Inl e) \<Rightarrow> (createReq # evs, Inl e)
                | (evs, Inr completedParts) \<Rightarrow>
                    (let completeReq =
                           Fetch (CompleteReq authHeaders (key sess) (uploadId sess)
                                    (sort_key PartNumber completedParts)) in
                     case complete_response script of
                       CompleteRejected \<Rightarrow> (createReq # evs @ [completeReq], Inl FetchRejected)
                     | CompleteOk \<Rightarrow> (createReq # evs @ [completeReq], Inr (key sess))
                     | CompleteNotOk body \<Rightarrow>
                         (let abortReq = Fetch (AbortReq authHeaders (key sess) (uploadId sess));
                              abort = (case abort_response script of
                                         AbortRejected \<Rightarrow> [abortReq, ConsoleWarn]
                                       | AbortResolved \<Rightarrow> [abortReq])
                          in (createReq # evs @ [completeReq] @ abort,
                              Inl (error_of_body body ''Failed to complete upload'')))))))"

section \<open>\<^verbatim>\<open>uploadScreenshots\<close>: the pool of workers\<close>

record UploadProgress =
  uploadedBytes :: int
  totalBytes :: int
  percent :: jsnum
  currentFile :: nat
  totalFiles :: nat

record ScreenshotUploadResult =
  result_key :: string
  filename :: string

text \<open>\<^verbatim>\<open>Math.round((totalUploaded / totalBytes) * 100)\<close>, computed exactly: a zero divisor
  gives \<^verbatim>\<open>NaN\<close> or an infinity, and \<^verbatim>\<open>Math.round\<close> rounds a half upwards.\<close>

definition js_percent :: "int \<Rightarrow> int \<Rightarrow> jsnum" where
  "js_percent totalUploaded allBytes =
     (if allBytes = 0 then
        (if totalUploaded = 0 then NaN
         else if 0 < totalUploaded then PosInfinity else NegInfinity)
      else Num ((200 * totalUploaded + allBytes) div (2 * allBytes)))"

text \<open>The comparison \<^verbatim>\<open>a <= b\<close> of JavaScript numbers: false as soon as one side is \<^verbatim>\<open>NaN\<close>.\<close>

fun js_le :: "jsnum \<Rightarrow> jsnum \<Rightarrow> bool" where
  "js_le NaN _ = False"
| "js_le _ NaN = False"
| "js_le NegInfinity _ = True"
| "js_le _ PosInfinity = True"
| "js_le (Num a) (Num b) = (a \<le> b)"
| "js_le _ _ = False"

text \<open>\<^verbatim>\<open>Map.prototype.set\<close> on a map kept in insertion order.\<close>

fun map_set :: "nat \<Rightarrow> int \<Rightarrow> (nat \<times> int) list \<Rightarrow> (nat \<times> int) list" where
  "map_set k v [] = [(k, v)]"
| "map_set k v ((k', v') # m) = (if k' = k then (k, v) # m else (k', v') # map_set k v m)"

text \<open>What is fixed during one call: the arguments, the credential, the sizes computed
  up front, and the answers the environment gives to the upload of each index.\<close>

record batch =
  screenshots :: "string list"
  onProgress :: bool
  authHeaders :: string
  sizePerScreenshot :: "int list"
  env :: "nat \<Rightarrow> file_script"

text \<open>A worker is suspended inside the upload of one index, with the events that upload
  still has to go through and the way it will end; or it has returned; or it has thrown.\<close>

datatype worker =
    Running nat "event list" "error + string"
  | Returned
  | Threw error

record pool =
  queue :: "nat list"
  results :: "ScreenshotUploadResult option list"
  bytesPerScreenshot :: "(nat \<times> int) list"
  workers :: "worker list"
  progress_calls :: "UploadProgress list"
  network :: "(nat \<times> event) list"
  rejection :: "error option"

definition page_filename :: "nat \<Rightarrow> string" where
  "page_filename index = ''page_'' @ String (int index + 1) @ ''.png''"

text \<open>The head of the worker's loop, up to the first suspension: leave if the queue is
  empty, otherwise shift the next index and start its upload.\<close>

definition worker_next :: "batch \<Rightarrow> pool \<Rightarrow> worker \<times> pool" where
  "worker_next b p =
     (case queue p of
        [] \<Rightarrow> (Returned, p)
      | index # rest \<Rightarrow>
          (let run = uploadScreenshot (screenshots b ! index) (page_filename index)
                       (authHeaders b) True (env b index)
           in (Running index (fst run) (snd run), p\<lparr>queue := rest\<rparr>)))"

text \<open>The callback the worker passes to \<^verbatim>\<open>uploadScreenshot\<close>.\<close>

definition file_progress :: "batch \<Rightarrow> nat \<Rightarrow> int \<Rightarrow> pool \<Rightarrow> pool" where
  "file_progress b index uploaded p =
     (let m = map_set index uploaded (bytesPerScreenshot p);
          totalUploaded = sum_list (map snd m);
          allBytes = sum_list (sizePerScreenshot b)
      in p\<lparr>bytesPerScreenshot := m,
            progress_calls := progress_calls p @
              (if onProgress b then
                 [\<lparr>uploadedBytes = totalUploaded, totalBytes = allBytes,
                   percent = js_percent totalUploaded allBytes,
                   currentFile = length m, totalFiles = length (screenshots b)\<rparr>]
               else [])\<rparr>)"

text \<open>One turn of worker \<open>w\<close>: the next event of its upload happens; or the upload has
  ended, and the worker stores the result and goes round its loop, or throws.\<close>

definition step :: "batch \<Rightarrow> nat \<Rightarrow> pool \<Rightarrow> pool" where
  "step b w p =
     (if w < length (workers p) then
        (case workers p ! w of
           Running index (e # es) r \<Rightarrow>
             (let p' = (case e of
                          OnProgress uploaded _ \<Rightarrow> file_progress b index uploaded p
                        | _ \<Rightarrow> p\<lparr>network := network p @ [(index, e)]\<rparr>)
              in p'\<lparr>workers := (workers p')[w := Running index es r]\<rparr>)
         | Running index [] (Inr k) \<Rightarrow>
             (let p1 = p\<lparr>results := (results p)
                           [index := Some \<lparr>result_key = k, filename = page_filename index\<rparr>],
                         bytesPerScreenshot :=
                           map_set index (sizePerScreenshot b ! index) (bytesPerScreenshot p)\<rparr>;
                  nxt = worker_next b p1
              in (snd nxt)\<lparr>workers := (workers (snd nxt))[w := fst nxt]\<rparr>)
         | Running index [] (Inl e) \<Rightarrow>
             p\<lparr>workers := (workers p)[w := Threw e],
               rejection := (case rejection p of None \<Rightarrow> Some e | Some first \<Rightarrow> Some first)\<rparr>
         | _ \<Rightarrow> p)
      else p)"

text \<open>A schedule names the worker whose turn it is, turn after turn.\<close>

fun run :: "batch \<Rightarrow> nat list \<Rightarrow> pool \<Rightarrow> pool" where
  "run b [] p = p"
| "run b (w # sched) p = run b sched (step b w p)"

text \<open>\<^verbatim>\<open>Array.from({ length: numWorkers }, worker)\<close> calls the worker function once per slot,
  each call running to its first suspension.\<close>

fun spawn :: "batch \<Rightarrow> nat \<Rightarrow> pool \<Rightarrow> pool" where
  "spawn b 0 p = p"
| "spawn b (Suc n) p =
     (let nxt = worker_next b p
      in spawn b n ((snd nxt)\<lparr>workers := workers (snd nxt) @ [fst nxt]\<rparr>))"

datatype 'a promise = Pending | Rejected error | Resolved 'a

text \<open>\<^verbatim>\<open>await Promise.all(workers)\<close> followed by the check of the results.\<close>

definition settle :: "pool \<Rightarrow> ScreenshotUploadResult list promise" where
  "settle p =
     (case rejection p of
        Some e \<Rightarrow> Rejected e
      | None \<Rightarrow>
          if list_all (\<lambda>w. w = Returned) (workers p) then
            (if list_ex (\<lambda>r. r = None) (results p)
             then Rejected (Error ''Some screenshots failed to upload'')
             else Resolved (map the (results p)))
          else Pending)"

fun sizes_of :: "string list \<Rightarrow> error + int list" where
  "sizes_of [] = Inr []"
| "sizes_of (dataUrl # rest) =
     (case dataUrlToBlob dataUrl of
        Inl e \<Rightarrow> Inl e
      | Inr blob \<Rightarrow> (case sizes_of rest of Inl e \<Rightarrow> Inl e | Inr sz \<Rightarrow> Inr (blob_size blob # sz)))"

definition idle_pool :: pool where
  "idle_pool = \<lparr>queue = [], results = [], bytesPerScreenshot = [], workers = [],
                progress_calls = [], network = [], rejection = None\<rparr>"

definition start_pool :: "batch \<Rightarrow> int \<Rightarrow> pool" where
  "start_pool b concurrency =
     (let n = length (screenshots b);
          p0 = idle_pool\<lparr>queue := [0..<n], results := replicate n None\<rparr>;
          numWorkers = min concurrency (int n)
      in spawn b (nat numWorkers) p0)"

text \<open>The whole call. \<open>auth\<close> is what \<^verbatim>\<open>getAuthHeaders()\<close> gave, \<open>environment\<close> the answers
  of the coordinator and the store to the upload of each index, \<open>sched\<close> the order in which
  the pending operations of the workers complete. The result is the state of the returned
  promise after these turns, with the pool for what was observed on the way.\<close>

definition uploadScreenshots ::
  "string list \<Rightarrow> bool \<Rightarrow> int \<Rightarrow> error + string \<Rightarrow> (nat \<Rightarrow> file_script) \<Rightarrow> nat list
    \<Rightarrow> ScreenshotUploadResult list promise \<times> pool" where
  "uploadScreenshots shots report concurrency auth environment sched =
     (case auth of
        Inl e \<Rightarrow> (Rejected e, idle_pool)
      | Inr headers \<Rightarrow>
          (case sizes_of shots of
             Inl e \<Rightarrow> (Rejected e, idle_pool\<lparr>results := replicate (length shots) None\<rparr>)
           | Inr sz \<Rightarrow>
               (let b = \<lparr>screenshots = shots, onProgress = report, authHeaders = headers,
                         sizePerScreenshot = sz, env = environment\<rparr>;
                    p = run b sched (start_pool b concurrency)
                in (settle p, p))))"

section \<open>Predicates used to state the properties\<close>

text \<open>A data URL is read as a metadata prefix, a comma, and a body. The prefix is the text
  before the first comma; the text that is decoded is what lies between the first comma and
  the second one (or the end).\<close>

definition metadata_prefix :: "string \<Rightarrow> string" where
  "metadata_prefix dataUrl = takeWhile (\<lambda>c. c \<noteq> CHR '','') dataUrl"

definition base64_segment :: "string \<Rightarrow> string" where
  "base64_segment dataUrl =
     takeWhile (\<lambda>c. c \<noteq> CHR '','') (tl (dropWhile (\<lambda>c. c \<noteq> CHR '','') dataUrl))"

text \<open>Base64 text, as a grammar over the alphabet of RFC 4648: groups of four characters of
  the alphabet, the last group being complete, or of two or three characters, or of two or
  three characters completed to four by \<^verbatim>\<open>=\<close>. A text is valid when it is of this form once
  tabs, line feeds, form feeds, carriage returns and spaces are removed.\<close>

definition base64_alphabet :: string where
  "base64_alphabet = ''ABCDEFGHIJKLMNOPQRSTUVWXYZabcdefghijklmnopqrstuvwxyz0123456789+/''"

definition b64_char :: "char \<Rightarrow> bool" where
  "b64_char c = (c \<in> set base64_alphabet)"

fun padded_base64 :: "string \<Rightarrow> bool" where
  "padded_base64 [] = True"
| "padded_base64 [a] = False"
| "padded_base64 [a, b] = (b64_char a \<and> b64_char b)"
| "padded_base64 [a, b, c] = (b64_char a \<and> b64_char b \<and> b64_char c)"
| "padded_base64 [a, b, c, d] =
     (b64_char a \<and> b64_char b
      \<and> (b64_char c \<and> (b64_char d \<or> d = CHR ''='') \<or> c = CHR ''='' \<and> d = CHR ''=''))"
| "padded_base64 (a # b # c # d # rest) =
     (b64_char a \<and> b64_char b \<and> b64_char c \<and> b64_char d \<and> padded_base64 rest)"

definition valid_base64 :: "string \<Rightarrow> bool" where
  "valid_base64 data =
     padded_base64 (filter (\<lambda>c. c \<notin> {CHR 0x09, CHR 0x0A, CHR 0x0C, CHR 0x0D, CHR '' ''}) data)"

text \<open>An attempt succeeds when the signed URL is granted and the store answers \<^verbatim>\<open>ok\<close> with an
  entity tag that is not empty once its quotes are removed.\<close>

definition attempt_succeeds :: "sign_result \<times> put_result \<Rightarrow> bool" where
  "attempt_succeeds r =
     (case r of
        (SignOk url, PutOk (Some header)) \<Rightarrow> filter (\<lambda>c. c \<noteq> CHR 0x22) header \<noteq> []
      | _ \<Rightarrow> False)"

text \<open>Observations on a list of events.\<close>

fun is_sign :: "event \<Rightarrow> bool" where
  "is_sign (Fetch (SignReq _ _ _ _)) = True"
| "is_sign _ = False"

fun is_put :: "event \<Rightarrow> bool" where
  "is_put (Fetch (PutReq _ _)) = True"
| "is_put _ = False"

fun delays :: "event list \<Rightarrow> int list" where
  "delays [] = []"
| "delays (Sleep d # evs) = d # delays evs"
| "delays (_ # evs) = delays evs"

definition attempts_made :: "event list \<Rightarrow> nat" where
  "attempts_made evs = length (filter is_sign evs)"

text \<open>A store that refuses a part twice and accepts it the third time.\<close>

definition twice_failing :: "nat \<Rightarrow> sign_result \<times> put_result" where
  "twice_failing attempt =
     (if attempt < 2 then (SignOk ''https://store/part'', PutNotOk ''Server Error'')
      else (SignOk ''https://store/part'', PutOk (Some [CHR 0x22, CHR ''e'', CHR 0x22])))"

fun part_event :: "event \<Rightarrow> bool" where
  "part_event (Fetch (SignReq _ _ _ _)) = True"
| "part_event (Fetch (PutReq _ _)) = True"
| "part_event (Sleep _) = True"
| "part_event _ = False"

fun progress_values :: "event list \<Rightarrow> int list" where
  "progress_values [] = []"
| "progress_values (OnProgress uploaded _ # evs) = uploaded # progress_values evs"
| "progress_values (_ # evs) = progress_values evs"

fun abort_calls :: "event list \<Rightarrow> (string \<times> string) list" where
  "abort_calls [] = []"
| "abort_calls (Fetch (AbortReq _ k uid) # evs) = (k, uid) # abort_calls evs"
| "abort_calls (_ # evs) = abort_calls evs"

fun complete_calls :: "event list \<Rightarrow> Part list list" where
  "complete_calls [] = []"
| "complete_calls (Fetch (CompleteReq _ _ _ parts) # evs) = parts # complete_calls evs"
| "complete_calls (_ # evs) = complete_calls evs"

text \<open>What it means for the upload of one file that every network operation succeeds in
  the end: the session is created, each part is accepted within the three attempts, and
  the completion is accepted.\<close>

definition part_succeeds :: "file_script \<Rightarrow> int \<Rightarrow> bool" where
  "part_succeeds script partNumber =
     list_ex (\<lambda>attempt. attempt_succeeds (part_response script partNumber attempt)) [0..<3]"

definition parts_succeed :: "file_script \<Rightarrow> MultipartSession \<Rightarrow> bool" where
  "parts_succeed script sess = list_all (part_succeeds script) [1..totalParts sess]"

definition upload_succeeds :: "file_script \<Rightarrow> bool" where
  "upload_succeeds script =
     (case create_response script of
        CreateOk sess \<Rightarrow> parts_succeed script sess \<and> complete_response script = CompleteOk
      | _ \<Rightarrow> False)"

text \<open>The storage key of the session that the create call of a file returned.\<close>

definition session_key :: "file_script \<Rightarrow> string" where
  "session_key script = (case create_response script of CreateOk sess \<Rightarrow> key sess | _ \<Rightarrow> [])"

text \<open>A store that never accepts a part.\<close>

definition never_accepting :: "nat \<Rightarrow> sign_result \<times> put_result" where
  "never_accepting attempt = (SignOk ''https://store/part'', PutNotOk ''Server Error'')"

text \<open>Sample answers of the environment: a session of two parts of two bytes, a store that
  accepts every part at once, and a coordinator that accepts or refuses the completion.\<close>

definition quoted_etag :: string where
  "quoted_etag = [CHR 0x22, CHR ''e'', CHR 0x22]"

definition two_part_session :: MultipartSession where
  "two_part_session = \<lparr>uploadId = ''u'', key = ''k'', partSize = 2, totalParts = 2\<rparr>"

definition accepting_script :: file_script where
  "accepting_script =
     \<lparr>create_response = CreateOk two_part_session,
      part_response = (\<lambda>partNumber attempt. (SignOk ''https://store/part'', PutOk (Some quoted_etag))),
      complete_response = CompleteOk,
      abort_response = AbortResolved\<rparr>"

definition refusing_completion :: file_script where
  "refusing_completion = accepting_script\<lparr>complete_response := CompleteNotOk (ErrorBody (Some ''boom''))\<rparr>"

text \<open>The upload of the file at one index of a batch, as the worker starts it.\<close>

definition file_run :: "batch \<Rightarrow> nat \<Rightarrow> event list \<times> (error + string)" where
  "file_run b index =
     uploadScreenshot (screenshots b ! index) (page_filename index) (authHeaders b) True
       (env b index)"

fun is_running :: "worker \<Rightarrow> bool" where
  "is_running (Running _ _ _) = True"
| "is_running _ = False"

fun awaits_create :: "worker \<Rightarrow> bool" where
  "awaits_create (Running _ (Fetch (CreateReq _ _ _ _) # _) _) = True"
| "awaits_create _ = False"

fun running_index :: "worker \<Rightarrow> nat option" where
  "running_index (Running index _ _) = Some index"
| "running_index _ = None"

definition accepting_environment :: "nat \<Rightarrow> file_script" where
  "accepting_environment index = accepting_script"

text \<open>The shape the pool keeps: one result slot per screenshot; the queue holds the indices
  not yet taken, in order; a running worker holds an index already taken, that no other
  worker holds, with what is left of the events of that upload and its outcome.\<close>

definition pool_ok :: "batch \<Rightarrow> pool \<Rightarrow> bool" where
  "pool_ok b p =
     (let n = length (screenshots b); q = n - length (queue p) in
      length (results p) = n \<and> queue p = [q..<n] \<and>
      (\<forall>w<length (workers p). \<forall>i es r. workers p ! w = Running i es r \<longrightarrow>
         i < q \<and> r = snd (file_run b i) \<and> (\<exists>pre. fst (file_run b i) = pre @ es) \<and>
         (\<forall>w'<length (workers p). \<forall>es' r'. workers p ! w' = Running i es' r' \<longrightarrow> w' = w)))"

text \<open>The sizes computed up front are those of the decoded screenshots.\<close>

definition batch_ok :: "batch \<Rightarrow> bool" where
  "batch_ok b = (sizes_of (screenshots b) = Inr (sizePerScreenshot b))"

text \<open>What the byte map and the progress reports keep: an index is entered once, only after
  it was taken from the queue, with at most the size of its screenshot; each report carries
  the sizes' sum as total and the percentage computed from its own two byte counts.\<close>

definition bytes_ok :: "batch \<Rightarrow> pool \<Rightarrow> bool" where
  "bytes_ok b p =
     (distinct (map fst (bytesPerScreenshot p)) \<and>
      (\<forall>i v. map_of (bytesPerScreenshot p) i = Some v \<longrightarrow>
         i < length (screenshots b) - length (queue p) \<and> v \<le> sizePerScreenshot b ! i) \<and>
      (\<forall>pr\<in>set (progress_calls p).
         uploadedBytes pr \<le> totalBytes pr \<and> totalBytes pr = sum_list (sizePerScreenshot b) \<and>
         percent pr = js_percent (uploadedBytes pr) (totalBytes pr) \<and>
         totalFiles pr = length (screenshots b)))"

text \<open>Some worker is busy with the upload of index \<open>i\<close>.\<close>

definition held :: "pool \<Rightarrow> nat \<Rightarrow> bool" where
  "held p i = (\<exists>w<length (workers p). \<exists>es r. workers p ! w = Running i es r)"

text \<open>What the results and the rejection keep: a filled slot holds the key its own upload
  returned and the file name of its index; an index taken from the queue is being uploaded,
  or its slot is filled, or its upload fails; a worker returns only once the queue is empty;
  a worker throws only the error of an upload; and the call is rejected exactly when some
  worker has thrown, with the error of a worker that has.\<close>

definition results_ok :: "batch \<Rightarrow> pool \<Rightarrow> bool" where
  "results_ok b p =
     ((\<forall>i x. i < length (screenshots b) \<and> results p ! i = Some x \<longrightarrow>
         snd (file_run b i) = Inr (result_key x) \<and> filename x = page_filename i) \<and>
      (\<forall>i. i < length (screenshots b) - length (queue p) \<longrightarrow>
         held p i \<or> results p ! i \<noteq> None \<or> isl (snd (file_run b i))) \<and>
      (Returned \<in> set (workers p) \<longrightarrow> queue p = []) \<and>
      (\<forall>e. Threw e \<in> set (workers p) \<longrightarrow>
         (\<exists>i<length (screenshots b). snd (file_run b i) = Inl e)) \<and>
      (rejection p = None \<longrightarrow> (\<forall>e. Threw e \<notin> set (workers p))) \<and>
      (\<forall>e. rejection p = Some e \<longrightarrow> Threw e \<in> set (workers p)))"

text \<open>The work a pool still has to do, counted in turns.\<close>

fun worker_cost :: "worker \<Rightarrow> nat" where
  "worker_cost (Running _ es _) = Suc (length es)"
| "worker_cost _ = 0"

definition remaining :: "batch \<Rightarrow> pool \<Rightarrow> nat" where
  "remaining b p =
     sum_list (map worker_cost (workers p)) +
     sum_list (map (\<lambda>j. Suc (length (fst (file_run b j)))) (queue p))"

text \<open>The outcomes a successful batch must deliver, in the order of the input.\<close>

definition expected_results :: "nat \<Rightarrow> (nat \<Rightarrow> file_script) \<Rightarrow> ScreenshotUploadResult list" where
  "expected_results n environment =
     map (\<lambda>i. \<lparr>result_key = session_key (environment i), filename = page_filename i\<rparr>) [0..<n]"



text \<open>The chunking plan of the session a file gets covers the file: parts of a size that is
  not negative, at least one of them, and together at least as large as the file.\<close>

definition plan_covers :: "file_script \<Rightarrow> int \<Rightarrow> bool" where
  "plan_covers script sz =
     (case create_response script of
        CreateOk sess \<Rightarrow>
          0 \<le> partSize sess \<and> 1 \<le> totalParts sess \<and> sz \<le> totalParts sess * partSize sess
      | _ \<Rightarrow> False)"

text \<open>An index still has a progress report to come: it waits in the queue, or the worker
  uploading it has a progress callback ahead.\<close>

definition awaiting :: "pool \<Rightarrow> nat \<Rightarrow> bool" where
  "awaiting p i =
     (i \<in> set (queue p) \<or>
      (\<exists>w<length (workers p). \<exists>es r. workers p ! w = Running i es r \<and> progress_values es \<noteq> []))"

text \<open>The reports grow: what an upload will report is at least what the byte map holds for
  its index; the reported byte counts are in ascending order and none exceeds the current
  sum of the byte map.\<close>

definition progress_ok :: "pool \<Rightarrow> bool" where
  "progress_ok p =
     ((\<forall>w<length (workers p). \<forall>i es r u v.
         workers p ! w = Running i es r \<and> u \<in> set (progress_values es) \<and>
         map_of (bytesPerScreenshot p) i = Some v \<longrightarrow> v \<le> u) \<and>
      sorted (map uploadedBytes (progress_calls p)) \<and>
      (\<forall>pr\<in>set (progress_calls p). uploadedBytes pr \<le> sum_list (map snd (bytesPerScreenshot p))))"

text \<open>An index with no report to come has its full size in the byte map; and once no index
  has a report to come, the last report made shows all the bytes and all the files.\<close>

definition filled_ok :: "batch \<Rightarrow> pool \<Rightarrow> bool" where
  "filled_ok b p =
     (\<forall>i<length (screenshots b). \<not> awaiting p i \<longrightarrow>
        map_of (bytesPerScreenshot p) i = Some (sizePerScreenshot b ! i))"

definition last_call_ok :: "batch \<Rightarrow> pool \<Rightarrow> bool" where
  "last_call_ok b p =
     ((\<forall>i<length (screenshots b). \<not> awaiting p i) \<longrightarrow>
        progress_calls p \<noteq> [] \<and>
        uploadedBytes (last (progress_calls p)) = sum_list (sizePerScreenshot b) \<and>
        currentFile (last (progress_calls p)) = length (screenshots b))"

text \<open>A successful batch of two screenshots, the second one empty and uploaded in no part.\<close>

definition one_part_script :: file_script where
  "one_part_script =
     accepting_script\<lparr>create_response :=
       CreateOk \<lparr>uploadId = ''u'', key = ''k0'', partSize = 5, totalParts = 1\<rparr>\<rparr>"

definition no_part_script :: file_script where
  "no_part_script =
     accepting_script\<lparr>create_response :=
       CreateOk \<lparr>uploadId = ''u'', key = ''k1'', partSize = 5, totalParts = 0\<rparr>\<rparr>"

definition mixed_environment :: "nat \<Rightarrow> file_script" where
  "mixed_environment index = (if index = 0 then one_part_script else no_part_script)"


section \<open>Decoding a data URL\<close>

lemma b64_value_alphabet: "(b64_value c \<noteq> None) = b64_char c"
proof -
  have inj: "inj (of_char :: char \<Rightarrow> nat)" by (simp add: inj_on_def)
  have "b64_char c = ((of_char c :: nat) \<in> of_char ` set base64_alphabet)"
    unfolding b64_char_def using inj by (simp add: inj_image_mem_iff)
  also have "\<dots> = (b64_value c \<noteq> None)"
    unfolding base64_alphabet_def b64_value_def Let_def
    by (simp) presburger
  finally show ?thesis by simp
qed


lemma whitespace_chars:
  "ascii_whitespace c = (c \<in> {CHR 0x09, CHR 0x0A, CHR 0x0C, CHR 0x0D, CHR '' ''})"
proof -
  have inj: "inj (of_char :: char \<Rightarrow> nat)" by (simp add: inj_on_def)
  have "(c \<in> {CHR 0x09, CHR 0x0A, CHR 0x0C, CHR 0x0D, CHR '' ''})
      = ((of_char c :: nat) \<in> of_char ` {CHR 0x09, CHR 0x0A, CHR 0x0C, CHR 0x0D, CHR '' ''})"
    using inj by (simp only: inj_image_mem_iff)
  also have "\<dots> = ascii_whitespace c"
    by (simp add: ascii_whitespace_def)
  finally show ?thesis by simp
qed

lemma b64_value_alphabet_ex: "(\<exists>y. b64_value c = Some y) = b64_char c"
  using b64_value_alphabet [of c] by auto

lemma padding_not_b64: "\<not> b64_char (CHR ''='')"
  by (simp add: b64_char_def base64_alphabet_def)

lemma strip_padding_Cons4:
  assumes "2 \<le> length rest"
  shows "strip_padding (a # b # c # d # rest) = a # b # c # d # strip_padding rest"
proof -
  from assms have "rest \<noteq> []" by auto
  then obtain r1 q where r1: "rest = r1 @ [q]" by (cases rest rule: rev_cases) simp_all
  with assms have "r1 \<noteq> []" by auto
  then obtain r p where "r1 = r @ [p]" by (cases r1 rule: rev_cases) simp_all
  with r1 have rest: "rest = r @ [p, q]" by simp
  show ?thesis by (simp add: rest strip_padding_def)
qed

lemma guard_grammar:
  "(let d2 = (if length s mod 4 = 0 then strip_padding s else s)
    in length d2 mod 4 \<noteq> 1 \<and> list_all (\<lambda>c. b64_value c \<noteq> None) d2) = padded_base64 s"
proof (induction s rule: padded_base64.induct)
  case 1
  then show ?case by (simp add: strip_padding_def)
next
  case (2 a)
  then show ?case by simp
next
  case (3 a b)
  then show ?case by (simp add: b64_value_alphabet_ex)
next
  case (4 a b c)
  then show ?case by (simp add: b64_value_alphabet_ex)
next
  case (5 a b c d)
  then show ?case using padding_not_b64 by (auto simp: b64_value_alphabet_ex strip_padding_def)
next
  case (6 a b c d v va)
  define rest where "rest = v # va"
  have l: "2 \<le> length rest \<or> length rest = 1" by (cases va) (simp_all add: rest_def)
  have m: "length (a # b # c # d # rest) mod 4 = length rest mod 4" by simp
  have ms: "length (a # b # c # d # strip_padding rest) mod 4 = length (strip_padding rest) mod 4"
    by simp
  have ih: "padded_base64 rest =
      (let d2 = (if length rest mod 4 = 0 then strip_padding rest else rest)
       in length d2 mod 4 \<noteq> 1 \<and> list_all (\<lambda>c. b64_value c \<noteq> None) d2)"
    unfolding rest_def by (rule "6.IH" [symmetric])
  have g: "padded_base64 (a # b # c # d # rest)
      = (b64_char a \<and> b64_char b \<and> b64_char c \<and> b64_char d \<and> padded_base64 rest)"
    by (simp add: rest_def)
  have "(let d2 = (if length (a # b # c # d # rest) mod 4 = 0
                   then strip_padding (a # b # c # d # rest) else a # b # c # d # rest)
    in length d2 mod 4 \<noteq> 1 \<and> list_all (\<lambda>c. b64_value c \<noteq> None) d2)
    = padded_base64 (a # b # c # d # rest)"
  proof (cases "length rest mod 4 = 0")
    case True
    then have "2 \<le> length rest" using l by auto
    then have sp: "strip_padding (a # b # c # d # rest) = a # b # c # d # strip_padding rest"
      by (rule strip_padding_Cons4)
    show ?thesis
      unfolding g ih Let_def m sp using True by (auto simp: b64_value_alphabet_ex)
  next
    case False
    show ?thesis
      unfolding g ih Let_def m using False by (auto simp: b64_value_alphabet_ex)
  qed
  then show ?case by (simp only: rest_def)
qed


lemma b64_values_None: "(b64_values cs = None) = (\<not> list_all (\<lambda>c. b64_value c \<noteq> None) cs)"
  by (induction cs) (auto split: option.splits)

lemma atob_fails_iff: "isl (atob data) = (\<not> valid_base64 data)"
proof -
  define d1 where "d1 = filter (\<lambda>c. \<not> ascii_whitespace c) data"
  define d2 where "d2 = (if length d1 mod 4 = 0 then strip_padding d1 else d1)"
  have a: "atob data =
      (if length d2 mod 4 = 1 then Inl InvalidCharacterError
       else (case b64_values d2 of
               None \<Rightarrow> Inl InvalidCharacterError
             | Some vs \<Rightarrow> Inr (b64_bytes vs)))"
    unfolding atob_def d1_def d2_def Let_def ..
  have f: "filter (\<lambda>c. c \<notin> {CHR 0x09, CHR 0x0A, CHR 0x0C, CHR 0x0D, CHR '' ''}) data = d1"
    unfolding d1_def whitespace_chars ..
  have v: "valid_base64 data =
      (length d2 mod 4 \<noteq> 1 \<and> list_all (\<lambda>c. b64_value c \<noteq> None) d2)"
    unfolding valid_base64_def f guard_grammar [of d1, symmetric] d2_def Let_def ..
  show ?thesis
  proof (cases "length d2 mod 4 = 1")
    case True
    then show ?thesis by (simp add: a v)
  next
    case False
    show ?thesis
    proof (cases "b64_values d2")
      case None
      with False b64_values_None [of d2] show ?thesis by (simp add: a v)
    next
      case (Some vs)
      with False b64_values_None [of d2] show ?thesis by (simp add: a v)
    qed
  qed
qed

lemma atob_error: "atob data = Inl e \<Longrightarrow> e = InvalidCharacterError"
  unfolding atob_def Let_def by (auto split: option.splits if_splits)

lemma split_comma_acc_hd:
  "hd (split_comma_acc acc s) = rev acc @ takeWhile (\<lambda>c. c \<noteq> CHR '','') s"
  by (induction s arbitrary: acc) simp_all

lemma split_comma_acc_tl:
  "tl (split_comma_acc acc s) =
     (if CHR '','' \<in> set s
      then split_comma_acc [] (tl (dropWhile (\<lambda>c. c \<noteq> CHR '','') s)) else [])"
  by (induction s arbitrary: acc) simp_all

lemma split_comma_acc_nonempty: "split_comma_acc acc s \<noteq> []"
  by (induction s arbitrary: acc) simp_all

lemma split_comma_pieces:
  "\<exists>more. split_comma dataUrl =
     metadata_prefix dataUrl #
     (if CHR '','' \<in> set dataUrl then base64_segment dataUrl # more else [])"
proof -
  define rest where "rest = tl (dropWhile (\<lambda>c. c \<noteq> CHR '','') dataUrl)"
  obtain x xs where p: "split_comma_acc [] dataUrl = x # xs"
    using split_comma_acc_nonempty [of "[]" dataUrl] by (cases "split_comma_acc [] dataUrl") simp_all
  have x: "x = metadata_prefix dataUrl"
    using split_comma_acc_hd [of "[]" dataUrl] unfolding p metadata_prefix_def by simp
  have xs: "xs = (if CHR '','' \<in> set dataUrl then split_comma_acc [] rest else [])"
    using split_comma_acc_tl [of "[]" dataUrl] unfolding p rest_def by simp
  obtain y ys where q: "split_comma_acc [] rest = y # ys"
    using split_comma_acc_nonempty [of "[]" rest] by (cases "split_comma_acc [] rest") simp_all
  have "y = takeWhile (\<lambda>c. c \<noteq> CHR '','') rest"
    using split_comma_acc_hd [of "[]" rest] unfolding q by simp
  then have y: "y = base64_segment dataUrl"
    unfolding base64_segment_def rest_def .
  have "split_comma dataUrl =
     metadata_prefix dataUrl #
     (if CHR '','' \<in> set dataUrl then base64_segment dataUrl # ys else [])"
    unfolding split_comma_def p x xs q y ..
  then show ?thesis ..
qed

lemma atob_undefined: "atob ''undefined'' = Inl InvalidCharacterError"
  by code_simp

lemma dataUrlToBlob_pieces:
  "dataUrlToBlob dataUrl =
     (if CHR '','' \<in> set dataUrl then
        (case atob (base64_segment dataUrl) of
           Inl e \<Rightarrow> Inl e
         | Inr binary \<Rightarrow> Inr \<lparr>bytes = binary,
             type = blob_type (case match_content_type (metadata_prefix dataUrl) of
                       None \<Rightarrow> ''image/png''
                     | Some g \<Rightarrow> if g = [] then ''image/png'' else g)\<rparr>)
      else Inl InvalidCharacterError)"
proof -
  obtain more where sc: "split_comma dataUrl =
     metadata_prefix dataUrl #
     (if CHR '','' \<in> set dataUrl then base64_segment dataUrl # more else [])"
    using split_comma_pieces by blast
  show ?thesis
  proof (cases "CHR '','' \<in> set dataUrl")
    case True
    then have sc': "split_comma dataUrl = metadata_prefix dataUrl # base64_segment dataUrl # more"
      using sc by simp
    show ?thesis
      unfolding dataUrlToBlob_def Let_def sc' using True
      by (cases "atob (base64_segment dataUrl)") simp_all
  next
    case False
    then have sc': "split_comma dataUrl = [metadata_prefix dataUrl]"
      using sc by simp
    show ?thesis
      unfolding dataUrlToBlob_def Let_def sc' using False
      by (simp add: atob_undefined)
  qed
qed

lemma lazy_until_semicolon_Some:
  "lazy_until_semicolon cs = Some g \<Longrightarrow> CHR '';'' \<in> set cs"
  by (induction cs arbitrary: g) (auto split: if_splits option.splits)

lemma match_content_type_None:
  "CHR '':'' \<notin> set s \<or> CHR '';'' \<notin> set s \<Longrightarrow> match_content_type s = None"
proof (induction s)
  case Nil
  then show ?case by simp
next
  case (Cons c cs)
  show ?case
  proof (cases "c = CHR '':''")
    case True
    with Cons.prems have no: "CHR '';'' \<notin> set cs" by simp
    then have "lazy_until_semicolon cs = None"
      using lazy_until_semicolon_Some [of cs] by (cases "lazy_until_semicolon cs") auto
    moreover have "match_content_type cs = None"
      using Cons.IH no by simp
    ultimately show ?thesis using True by simp
  next
    case False
    then have "match_content_type cs = None"
      using Cons.IH Cons.prems by auto
    then show ?thesis using False by simp
  qed
qed

lemma blob_type_png: "blob_type ''image/png'' = ''image/png''"
  by code_simp

text \<open>
  C7, as the code has it. \<^verbatim>\<open>dataUrlToBlob\<close> fails exactly when the input has no comma or the
  text between its first comma and the second one (or the end) is not valid base64, padding
  being optional and white space ignored; the only failure is the decoder's
  \<^verbatim>\<open>InvalidCharacterError\<close>. The metadata prefix plays no part in it: a prefix that cannot
  be parsed is no failure, and when it has no colon or no semicolon the content type is
  \<^verbatim>\<open>image/png\<close>. What follows a second comma is not read.
\<close>

theorem dataUrlToBlob_fails_on_bad_base64_only:
  "(isl (dataUrlToBlob dataUrl)
      = (CHR '','' \<notin> set dataUrl \<or> \<not> valid_base64 (base64_segment dataUrl)))
   \<and> (\<forall>e. dataUrlToBlob dataUrl = Inl e \<longrightarrow> e = InvalidCharacterError)
   \<and> (CHR '','' \<in> set dataUrl \<and> valid_base64 (base64_segment dataUrl)
        \<and> (CHR '':'' \<notin> set (metadata_prefix dataUrl)
             \<or> CHR '';'' \<notin> set (metadata_prefix dataUrl))
        \<longrightarrow> (\<exists>binary. dataUrlToBlob dataUrl = Inr \<lparr>bytes = binary, type = ''image/png''\<rparr>))"
proof -
  have a: "isl (dataUrlToBlob dataUrl)
      = (CHR '','' \<notin> set dataUrl \<or> \<not> valid_base64 (base64_segment dataUrl))"
  proof (cases "CHR '','' \<in> set dataUrl")
    case True
    then show ?thesis
      using atob_fails_iff [of "base64_segment dataUrl"]
      by (cases "atob (base64_segment dataUrl)") (simp_all add: dataUrlToBlob_pieces)
  next
    case False
    then show ?thesis by (simp add: dataUrlToBlob_pieces)
  qed
  have b: "\<forall>e. dataUrlToBlob dataUrl = Inl e \<longrightarrow> e = InvalidCharacterError"
  proof (cases "CHR '','' \<in> set dataUrl")
    case True
    then show ?thesis
      using atob_error [of "base64_segment dataUrl"]
      by (cases "atob (base64_segment dataUrl)") (simp_all add: dataUrlToBlob_pieces)
  next
    case False
    then show ?thesis by (simp add: dataUrlToBlob_pieces)
  qed
  have c: "CHR '','' \<in> set dataUrl \<and> valid_base64 (base64_segment dataUrl)
        \<and> (CHR '':'' \<notin> set (metadata_prefix dataUrl)
             \<or> CHR '';'' \<notin> set (metadata_prefix dataUrl))
        \<longrightarrow> (\<exists>binary. dataUrlToBlob dataUrl = Inr \<lparr>bytes = binary, type = ''image/png''\<rparr>)"
  proof
    assume h: "CHR '','' \<in> set dataUrl \<and> valid_base64 (base64_segment dataUrl)
        \<and> (CHR '':'' \<notin> set (metadata_prefix dataUrl)
             \<or> CHR '';'' \<notin> set (metadata_prefix dataUrl))"
    then have m: "match_content_type (metadata_prefix dataUrl) = None"
      using match_content_type_None [of "metadata_prefix dataUrl"] by blast
    from h have "\<not> isl (atob (base64_segment dataUrl))"
      by (simp add: atob_fails_iff)
    then obtain binary where "atob (base64_segment dataUrl) = Inr binary"
      by (cases "atob (base64_segment dataUrl)") simp_all
    with h m have "dataUrlToBlob dataUrl = Inr \<lparr>bytes = binary, type = ''image/png''\<rparr>"
      by (simp add: dataUrlToBlob_pieces blob_type_png)
    then show "\<exists>binary. dataUrlToBlob dataUrl = Inr \<lparr>bytes = binary, type = ''image/png''\<rparr>"
      by simp
  qed
  show ?thesis using a b c by blast
qed

theorem dataUrlToBlob_fails_on_bad_base64_only_witness:
  "(\<exists>binary. dataUrlToBlob ''garbage,AAAA'' = Inr \<lparr>bytes = binary, type = ''image/png''\<rparr>)
   \<and> \<not> isl (dataUrlToBlob ''data:image/png;base64,AA A=,!!!'')
   \<and> dataUrlToBlob ''data:image/png;base64,AAA@'' = Inl InvalidCharacterError
   \<and> dataUrlToBlob ''data:image/png;base64'' = Inl InvalidCharacterError
   \<and> dataUrlToBlob ''data:IMAGE/PNG;base64,AAAA'' = Inr \<lparr>bytes = [0, 0, 0], type = ''image/png''\<rparr>"
proof -
  have c1: "CHR '','' \<in> set ''garbage,AAAA''" by simp
  have p1: "CHR '':'' \<notin> set (metadata_prefix ''garbage,AAAA'')"
    by (simp add: metadata_prefix_def)
  have v1: "valid_base64 (base64_segment ''garbage,AAAA'')"
    by code_simp
  have a: "\<exists>binary. dataUrlToBlob ''garbage,AAAA'' = Inr \<lparr>bytes = binary, type = ''image/png''\<rparr>"
    using dataUrlToBlob_fails_on_bad_base64_only [of "''garbage,AAAA''"] c1 p1 v1 by blast
  have c2: "CHR '','' \<in> set ''data:image/png;base64,AA A=,!!!''" by simp
  have v2: "valid_base64 (base64_segment ''data:image/png;base64,AA A=,!!!'')"
    by code_simp
  have b: "\<not> isl (dataUrlToBlob ''data:image/png;base64,AA A=,!!!'')"
    using dataUrlToBlob_fails_on_bad_base64_only [of "''data:image/png;base64,AA A=,!!!''"] c2 v2
    by blast
  have v3: "\<not> valid_base64 (base64_segment ''data:image/png;base64,AAA@'')"
    by code_simp
  have "isl (dataUrlToBlob ''data:image/png;base64,AAA@'')"
    using dataUrlToBlob_fails_on_bad_base64_only [of "''data:image/png;base64,AAA@''"] v3
    by blast
  then obtain e where "dataUrlToBlob ''data:image/png;base64,AAA@'' = Inl e"
    by (cases "dataUrlToBlob ''data:image/png;base64,AAA@''") simp_all
  then have c: "dataUrlToBlob ''data:image/png;base64,AAA@'' = Inl InvalidCharacterError"
    using dataUrlToBlob_fails_on_bad_base64_only [of "''data:image/png;base64,AAA@''"] by blast
  have c4: "CHR '','' \<notin> set ''data:image/png;base64''" by simp
  have "isl (dataUrlToBlob ''data:image/png;base64'')"
    using dataUrlToBlob_fails_on_bad_base64_only [of "''data:image/png;base64''"] c4
    by blast
  then obtain e' where "dataUrlToBlob ''data:image/png;base64'' = Inl e'"
    by (cases "dataUrlToBlob ''data:image/png;base64''") simp_all
  then have d: "dataUrlToBlob ''data:image/png;base64'' = Inl InvalidCharacterError"
    using dataUrlToBlob_fails_on_bad_base64_only [of "''data:image/png;base64''"] by blast
  have e: "dataUrlToBlob ''data:IMAGE/PNG;base64,AAAA'' = Inr \<lparr>bytes = [0, 0, 0], type = ''image/png''\<rparr>"
    by code_simp
  show ?thesis using a b c d e by blast
qed

text \<open>An input whose prefix is not that of a data URL is decoded all the same, and so is an
  input whose body, the text after the first comma, is not valid base64 beyond a second
  comma.\<close>

theorem dataUrlToBlob_lenient_counterexample:
  "CHR '':'' \<notin> set (metadata_prefix ''garbage,AAAA'')
   \<and> dataUrlToBlob ''garbage,AAAA'' = Inr \<lparr>bytes = [0, 0, 0], type = ''image/png''\<rparr>
   \<and> \<not> valid_base64 ''AAAA,!!!''
   \<and> dataUrlToBlob ''data:image/png;base64,AAAA,!!!''
       = Inr \<lparr>bytes = [0, 0, 0], type = ''image/png''\<rparr>"
  by code_simp

section \<open>The retry loop of \<^verbatim>\<open>uploadPart\<close>\<close>

lemma delays_append: "delays (xs @ ys) = delays xs @ delays ys"
  by (induction xs rule: delays.induct) simp_all

lemma upload_attempt_result:
  "isl (snd (upload_attempt h k u pn data r)) = (\<not> attempt_succeeds r)"
  by (cases r; cases "fst r"; cases "snd r")
     (auto simp: upload_attempt_def attempt_succeeds_def Let_def split: option.splits)

lemma upload_attempt_signs:
  "filter is_sign (fst (upload_attempt h k u pn data r))
     = [Fetch (SignReq h k u (String pn))]"
  by (cases r; cases "fst r"; cases "snd r")
     (auto simp: upload_attempt_def Let_def split: option.splits)

lemma upload_attempt_delays: "delays (fst (upload_attempt h k u pn data r)) = []"
  by (cases r; cases "fst r"; cases "snd r")
     (auto simp: upload_attempt_def Let_def split: option.splits)

lemma upload_attempt_shape:
  "fst (upload_attempt h k u pn data r) = [Fetch (SignReq h k u (String pn))] \<or>
   (\<exists>url. fst r = SignOk url \<and>
      fst (upload_attempt h k u pn data r)
        = [Fetch (SignReq h k u (String pn)), Fetch (PutReq url data)])"
  by (cases r; cases "fst r"; cases "snd r")
     (auto simp: upload_attempt_def Let_def split: option.splits)

lemma upload_attempt_part:
  "snd (upload_attempt h k u pn data r) = Inr part \<Longrightarrow> PartNumber part = pn \<and> ETag part \<noteq> []"
  by (cases r; cases "fst r"; cases "snd r")
     (auto simp: upload_attempt_def Let_def split: option.splits if_splits)
lemma uploadPart_loop_events:
  "a \<le> m \<Longrightarrow>
   fst (uploadPart_loop body m a lastError) =
     (let fs = takeWhile (\<lambda>j. isl (snd (body j))) [a..<m]; j = a + length fs
      in concat (map (\<lambda>i. fst (body i) @ (if i + 1 < m then [Sleep (backoff_delay i)] else [])) fs)
         @ (if j < m then fst (body j) else []))"
proof (induction body m a lastError rule: uploadPart_loop.induct)
  case (1 body m a lastError)
  show ?case
  proof (cases "a < m")
    case False
    with "1.prems" have "a = m" by simp
    then show ?thesis by (simp add: uploadPart_loop.simps [of body m m])
  next
    case True
    obtain evs r where b: "body a = (evs, r)" by (cases "body a")
    show ?thesis
    proof (cases r)
      case (Inr part)
      with True b show ?thesis
        by (simp add: uploadPart_loop.simps [of body m a] upt_conv_Cons)
    next
      case (Inl e)
      have ih: "fst (uploadPart_loop body m (a + 1) (Some e)) =
          (let fs = takeWhile (\<lambda>j. isl (snd (body j))) [a + 1..<m]; j = a + 1 + length fs
           in concat (map (\<lambda>i. fst (body i) @ (if i + 1 < m then [Sleep (backoff_delay i)] else [])) fs)
              @ (if j < m then fst (body j) else []))"
        using "1.IH" [OF True b [symmetric] Inl refl] True by simp
      have w: "(int a < int m - 1) = (a + 1 < m)" by auto
      have tw: "takeWhile (\<lambda>j. isl (snd (body j))) [a..<m]
                  = a # takeWhile (\<lambda>j. isl (snd (body j))) [a + 1..<m]"
        using True b Inl by (simp add: upt_conv_Cons)
      show ?thesis
        using True b Inl ih
        by (simp add: uploadPart_loop.simps [of body m a] tw Let_def w)
    qed
  qed
qed

lemma uploadPart_loop_result:
  "a \<le> m \<Longrightarrow>
   (let j = a + length (takeWhile (\<lambda>j. isl (snd (body j))) [a..<m])
    in (j < m \<longrightarrow> snd (uploadPart_loop body m a lastError) = snd (body j))
     \<and> (\<not> j < m \<longrightarrow> isl (snd (uploadPart_loop body m a lastError))))"
proof (induction body m a lastError rule: uploadPart_loop.induct)
  case (1 body m a lastError)
  show ?case
  proof (cases "a < m")
    case False
    with "1.prems" have "a = m" by simp
    then show ?thesis by (simp add: uploadPart_loop.simps [of body m m])
  next
    case True
    obtain evs r where b: "body a = (evs, r)" by (cases "body a")
    show ?thesis
    proof (cases r)
      case (Inr part)
      with True b show ?thesis
        by (simp add: uploadPart_loop.simps [of body m a] upt_conv_Cons)
    next
      case (Inl e)
      have ih: "(let j = a + 1 + length (takeWhile (\<lambda>j. isl (snd (body j))) [a + 1..<m])
          in (j < m \<longrightarrow> snd (uploadPart_loop body m (a + 1) (Some e)) = snd (body j))
           \<and> (\<not> j < m \<longrightarrow> isl (snd (uploadPart_loop body m (a + 1) (Some e)))))"
        using "1.IH" [OF True b [symmetric] Inl refl] True by simp
      have tw: "takeWhile (\<lambda>j. isl (snd (body j))) [a..<m]
                  = a # takeWhile (\<lambda>j. isl (snd (body j))) [a + 1..<m]"
        using True b Inl by (simp add: upt_conv_Cons)
      show ?thesis
        using True b Inl ih
        by (simp add: uploadPart_loop.simps [of body m a] tw Let_def)
    qed
  qed
qed
lemma takeWhile_upt_prefix:
  "takeWhile P [0..<m] = [0..<length (takeWhile P [0..<m])]"
proof -
  have "length (takeWhile P [0..<m]) \<le> m"
    using length_takeWhile_le [of P "[0..<m]"] by simp
  then have "take (length (takeWhile P [0..<m])) [0..<m] = [0..<length (takeWhile P [0..<m])]"
    by (simp add: take_upt)
  then show ?thesis using takeWhile_eq_take [of P "[0..<m]"] by simp
qed

lemma signs_of_attempts:
  "length (filter is_sign (concat (map (\<lambda>a. fst (upload_attempt h k u pn data (resp a)) @
       (if c a then [Sleep (backoff_delay a)] else [])) xs))) = length xs"
  by (induction xs) (simp_all add: upload_attempt_signs)

lemma delays_of_attempts:
  "delays (concat (map (\<lambda>a. fst (upload_attempt h k u pn data (resp a)) @
       (if a + 1 < n then [Sleep (backoff_delay a)] else [])) [0..<j]))
   = map backoff_delay [0..<min j (n - 1)]"
proof (induction j)
  case 0
  then show ?case by simp
next
  case (Suc j)
  show ?case
  proof (cases "j + 1 < n")
    case True
    then have "min (Suc j) (n - 1) = Suc (min j (n - 1))" by simp
    with Suc True show ?thesis
      by (simp add: delays_append upload_attempt_delays)
  next
    case False
    then have "min (Suc j) (n - 1) = min j (n - 1)" by simp
    with Suc False show ?thesis
      by (simp add: delays_append upload_attempt_delays)
  qed
qed

lemma uploadPart_closed_form:
  "let run = uploadPart h k u pn data resp maxRetries; n = attempts_made (fst run) in
     n \<le> maxRetries
   \<and> (isl (snd run) = (\<forall>a<maxRetries. \<not> attempt_succeeds (resp a)))
   \<and> (isl (snd run) \<longrightarrow> n = maxRetries)
   \<and> (\<not> isl (snd run) \<longrightarrow>
        0 < n \<and> attempt_succeeds (resp (n - 1))
        \<and> snd run = snd (upload_attempt h k u pn data (resp (n - 1))))
   \<and> (\<forall>a. a + 1 < n \<longrightarrow> \<not> attempt_succeeds (resp a))
   \<and> fst run = concat (map (\<lambda>a. fst (upload_attempt h k u pn data (resp a)) @
                               (if a + 1 < n then [Sleep (backoff_delay a)] else [])) [0..<n])
   \<and> delays (fst run) = map backoff_delay [0..<n - 1]"
proof -
  define body where "body = (\<lambda>a. upload_attempt h k u pn data (resp a))"
  define m where "m = maxRetries"
  define fs where "fs = takeWhile (\<lambda>j. isl (snd (body j))) [0..<m]"
  define f where "f = length fs"
  define run where "run = uploadPart h k u pn data resp maxRetries"
  define n where "n = attempts_made (fst run)"
  have run: "run = uploadPart_loop body m 0 None"
    by (simp add: run_def uploadPart_def body_def m_def)
  have fs: "fs = [0..<f]"
    unfolding f_def fs_def by (rule takeWhile_upt_prefix)
  have fm: "f \<le> m"
    using length_takeWhile_le [of "\<lambda>j. isl (snd (body j))" "[0..<m]"] by (simp add: f_def fs_def)
  have fail: "\<not> attempt_succeeds (resp j)" if "j < f" for j
  proof -
    have "j \<in> set fs" using that fs by simp
    then have "isl (snd (body j))" unfolding fs_def by (rule set_takeWhileD [THEN conjunct2])
    then show ?thesis by (simp add: body_def upload_attempt_result)
  qed
  have ok: "attempt_succeeds (resp f)" if "f < m"
  proof -
    have "\<not> isl (snd (body ([0..<m] ! f)))"
      using nth_length_takeWhile [of "\<lambda>j. isl (snd (body j))" "[0..<m]"] that
      by (simp add: f_def fs_def)
    with that show ?thesis by (simp add: body_def upload_attempt_result)
  qed
  have E: "fst run = concat (map (\<lambda>i. fst (body i) @
               (if i + 1 < m then [Sleep (backoff_delay i)] else [])) [0..<f])
             @ (if f < m then fst (body f) else [])"
    using uploadPart_loop_events [of 0 m body None] fs
    by (simp add: run Let_def fs_def [symmetric] f_def [symmetric])
  have R: "(f < m \<longrightarrow> snd run = snd (body f)) \<and> (\<not> f < m \<longrightarrow> isl (snd run))"
    using uploadPart_loop_result [of 0 m body None]
    by (simp add: run Let_def fs_def [symmetric] f_def [symmetric])
  have n: "n = (if f < m then f + 1 else f)"
    unfolding n_def attempts_made_def E body_def
    using signs_of_attempts [of h k u pn data resp "\<lambda>i. i + 1 < m" "[0..<f]"]
    by (simp add: upload_attempt_signs)
  have c1: "n \<le> maxRetries" using fm n by (simp add: m_def)
  have isl: "isl (snd run) = (\<not> f < m)"
  proof (cases "f < m")
    case True
    with R ok show ?thesis by (simp add: body_def upload_attempt_result)
  next
    case False
    with R show ?thesis by simp
  qed
  have c2: "isl (snd run) = (\<forall>a<maxRetries. \<not> attempt_succeeds (resp a))"
  proof (cases "f < m")
    case True
    with ok isl show ?thesis unfolding m_def by blast
  next
    case False
    with fm have "f = m" by simp
    with fail isl False show ?thesis unfolding m_def by blast
  qed
  have c3: "isl (snd run) \<longrightarrow> n = maxRetries"
    using isl n fm by (auto simp: m_def)
  have c4: "\<not> isl (snd run) \<longrightarrow>
        0 < n \<and> attempt_succeeds (resp (n - 1))
        \<and> snd run = snd (upload_attempt h k u pn data (resp (n - 1)))"
    using isl n ok R by (auto simp: body_def)
  have c5: "\<forall>a. a + 1 < n \<longrightarrow> \<not> attempt_succeeds (resp a)"
    using n fail by (auto split: if_splits)
  have same: "(\<lambda>i. fst (body i) @ (if i + 1 < m then [Sleep (backoff_delay i)] else [])) i
            = (\<lambda>a. fst (upload_attempt h k u pn data (resp a)) @
                               (if a + 1 < n then [Sleep (backoff_delay a)] else [])) i"
    if "i < f" for i
    using that n fm by (auto simp: body_def)
  have mapsame: "map (\<lambda>i. fst (body i) @ (if i + 1 < m then [Sleep (backoff_delay i)] else [])) [0..<f]
     = map (\<lambda>a. fst (upload_attempt h k u pn data (resp a)) @
                               (if a + 1 < n then [Sleep (backoff_delay a)] else [])) [0..<f]"
    by (rule map_cong [OF refl]) (use same in simp)
  have c6: "fst run = concat (map (\<lambda>a. fst (upload_attempt h k u pn data (resp a)) @
                               (if a + 1 < n then [Sleep (backoff_delay a)] else [])) [0..<n])"
  proof (cases "f < m")
    case True
    then have nf: "n = Suc f" using n by simp
    show ?thesis unfolding E mapsame using True by (simp add: nf body_def)
  next
    case False
    then have nf: "n = f" using n by simp
    show ?thesis unfolding E mapsame using False by (simp add: nf)
  qed
  have c7: "delays (fst run) = map backoff_delay [0..<n - 1]"
    unfolding c6 using delays_of_attempts [of h k u pn data resp n n] by simp
  show ?thesis
    unfolding Let_def run_def [symmetric] n_def [symmetric]
    using c1 c2 c3 c4 c5 c6 c7 by blast
qed

lemma upload_attempt_events:
  "fst (upload_attempt h k u pn data r) =
     (case fst r of
        SignOk url \<Rightarrow> [Fetch (SignReq h k u (String pn)), Fetch (PutReq url data)]
      | _ \<Rightarrow> [Fetch (SignReq h k u (String pn))])"
  by (cases r; cases "fst r"; cases "snd r")
     (auto simp: upload_attempt_def Let_def split: option.splits)

lemma upload_attempt_success:
  assumes "attempt_succeeds r"
  shows "\<exists>url header. r = (SignOk url, PutOk (Some header))
     \<and> snd (upload_attempt h k u pn data r)
         = Inr \<lparr>PartNumber = pn, ETag = filter (\<lambda>c. c \<noteq> CHR 0x22) header\<rparr>"
proof -
  obtain s t where r: "r = (s, t)" by (cases r)
  from assms r obtain url where s: "s = SignOk url"
    by (cases s) (simp_all add: attempt_succeeds_def)
  from assms r s obtain ho where t: "t = PutOk ho"
    by (cases t) (simp_all add: attempt_succeeds_def)
  from assms r s t obtain header where ho: "ho = Some header"
    and ne: "filter (\<lambda>c. c \<noteq> CHR 0x22) header \<noteq> []"
    by (cases ho) (simp_all add: attempt_succeeds_def)
  show ?thesis
    using ne by (simp add: r s t ho upload_attempt_def Let_def)
qed

lemma puts_of_attempts:
  "length (filter is_put (concat (map (\<lambda>a. fst (upload_attempt h k u pn data (resp a)) @
       (if c a then [Sleep (backoff_delay a)] else [])) xs))) \<le> length xs"
proof (induction xs)
  case Nil
  then show ?case by simp
next
  case (Cons a xs)
  have "length (filter is_put (fst (upload_attempt h k u pn data (resp a)))) \<le> 1"
    using upload_attempt_shape [of h k u pn data "resp a"] by auto
  with Cons show ?case by simp
qed

text \<open>
  C3. \<^verbatim>\<open>uploadPart\<close> makes at most \<open>maxRetries\<close> attempts (the only caller leaves the default,
  3). Its events are those of attempts \<open>0, \<dots>, n - 1\<close> in turn: each attempt requests a signed
  URL and, when the URL is granted, PUTs the bytes to that URL; after the failed attempt \<open>a\<close>
  comes a delay of \<open>min (1000 * 2 ^ a) 10000\<close> ms, and none after the last attempt made.
  It throws exactly when every one of the \<open>maxRetries\<close> attempts fails, and then it has made
  them all; otherwise the last attempt made is the first that succeeds, and the result is
  the part with its number and the entity tag of that attempt's response, quotes removed.
\<close>

theorem uploadPart_retry_budget:
  "let run = uploadPart h k u pn data resp maxRetries; n = attempts_made (fst run) in
     n \<le> maxRetries
   \<and> (isl (snd run) = (\<forall>a<maxRetries. \<not> attempt_succeeds (resp a)))
   \<and> (isl (snd run) \<longrightarrow> n = maxRetries)
   \<and> (\<not> isl (snd run) \<longrightarrow>
        0 < n \<and> attempt_succeeds (resp (n - 1))
        \<and> (\<exists>url header. resp (n - 1) = (SignOk url, PutOk (Some header))
             \<and> snd run = Inr \<lparr>PartNumber = pn,
                                 ETag = filter (\<lambda>c. c \<noteq> CHR 0x22) header\<rparr>))
   \<and> (\<forall>a. a + 1 < n \<longrightarrow> \<not> attempt_succeeds (resp a))
   \<and> fst run = concat (map (\<lambda>a.
         (case fst (resp a) of
            SignOk url \<Rightarrow> [Fetch (SignReq h k u (String pn)), Fetch (PutReq url data)]
          | _ \<Rightarrow> [Fetch (SignReq h k u (String pn))])
         @ (if a + 1 < n then [Sleep (min (1000 * 2 ^ a) 10000)] else [])) [0..<n])
   \<and> delays (fst run) = map (\<lambda>a. min (1000 * 2 ^ a) 10000) [0..<n - 1]
   \<and> length (filter is_put (fst run)) \<le> n"
proof -
  define run where "run = uploadPart h k u pn data resp maxRetries"
  define n where "n = attempts_made (fst run)"
  note cf = uploadPart_closed_form [of h k u pn data resp maxRetries, unfolded Let_def,
      folded run_def, folded n_def]
  have c1: "n \<le> maxRetries" and c2: "isl (snd run) = (\<forall>a<maxRetries. \<not> attempt_succeeds (resp a))"
    and c3: "isl (snd run) \<longrightarrow> n = maxRetries"
    and c5: "\<forall>a. a + 1 < n \<longrightarrow> \<not> attempt_succeeds (resp a)"
    using cf by blast+
  have ev: "fst run = concat (map (\<lambda>a. fst (upload_attempt h k u pn data (resp a)) @
                               (if a + 1 < n then [Sleep (backoff_delay a)] else [])) [0..<n])"
    using cf by blast
  have dl: "delays (fst run) = map backoff_delay [0..<n - 1]"
    using cf by blast
  have c4: "\<not> isl (snd run) \<longrightarrow>
        0 < n \<and> attempt_succeeds (resp (n - 1))
        \<and> (\<exists>url header. resp (n - 1) = (SignOk url, PutOk (Some header))
             \<and> snd run = Inr \<lparr>PartNumber = pn,
                                 ETag = filter (\<lambda>c. c \<noteq> CHR 0x22) header\<rparr>)"
  proof
    assume "\<not> isl (snd run)"
    with cf have s: "0 < n" "attempt_succeeds (resp (n - 1))"
      "snd run = snd (upload_attempt h k u pn data (resp (n - 1)))" by blast+
    from upload_attempt_success [OF s(2), of h k u pn data] s
    show "0 < n \<and> attempt_succeeds (resp (n - 1))
        \<and> (\<exists>url header. resp (n - 1) = (SignOk url, PutOk (Some header))
             \<and> snd run = Inr \<lparr>PartNumber = pn,
                                 ETag = filter (\<lambda>c. c \<noteq> CHR 0x22) header\<rparr>)"
      by simp
  qed
  have c6: "fst run = concat (map (\<lambda>a.
         (case fst (resp a) of
            SignOk url \<Rightarrow> [Fetch (SignReq h k u (String pn)), Fetch (PutReq url data)]
          | _ \<Rightarrow> [Fetch (SignReq h k u (String pn))])
         @ (if a + 1 < n then [Sleep (min (1000 * 2 ^ a) 10000)] else [])) [0..<n])"
    unfolding ev upload_attempt_events backoff_delay_def ..
  have c7: "delays (fst run) = map (\<lambda>a. min (1000 * 2 ^ a) 10000) [0..<n - 1]"
    unfolding dl by (simp add: backoff_delay_def)
  have c8: "length (filter is_put (fst run)) \<le> n"
    unfolding ev using puts_of_attempts [of h k u pn data resp "\<lambda>a. a + 1 < n" "[0..<n]"]
    by simp
  show ?thesis
    unfolding Let_def run_def [symmetric] n_def [symmetric]
    using c1 c2 c3 c4 c5 c6 c7 c8 by blast
qed

theorem uploadPart_retry_budget_witness:
  "attempts_made (fst (uploadPart ''t'' ''k'' ''u'' 1 \<lparr>bytes = [0], type = []\<rparr> twice_failing 3)) = 3
   \<and> uploadPart ''t'' ''k'' ''u'' 1 \<lparr>bytes = [0], type = []\<rparr> twice_failing 3
       = ([Fetch (SignReq ''t'' ''k'' ''u'' ''1''),
           Fetch (PutReq ''https://store/part'' \<lparr>bytes = [0], type = []\<rparr>), Sleep 1000,
           Fetch (SignReq ''t'' ''k'' ''u'' ''1''),
           Fetch (PutReq ''https://store/part'' \<lparr>bytes = [0], type = []\<rparr>), Sleep 2000,
           Fetch (SignReq ''t'' ''k'' ''u'' ''1''),
           Fetch (PutReq ''https://store/part'' \<lparr>bytes = [0], type = []\<rparr>)],
          Inr \<lparr>PartNumber = 1, ETag = ''e''\<rparr>)
   \<and> isl (snd (uploadPart ''t'' ''k'' ''u'' 1 \<lparr>bytes = [0], type = []\<rparr> never_accepting 6))
   \<and> attempts_made (fst (uploadPart ''t'' ''k'' ''u'' 1 \<lparr>bytes = [0], type = []\<rparr> never_accepting 6))
       = 6
   \<and> delays (fst (uploadPart ''t'' ''k'' ''u'' 1 \<lparr>bytes = [0], type = []\<rparr> never_accepting 6))
       = [1000, 2000, 4000, 8000, 10000]"
proof -
  let ?data = "\<lparr>bytes = [0], type = []\<rparr>"
  let ?run = "uploadPart ''t'' ''k'' ''u'' 1 ?data twice_failing 3"
  let ?bad = "uploadPart ''t'' ''k'' ''u'' 1 ?data never_accepting 6"
  note t = uploadPart_retry_budget [of "''t''" "''k''" "''u''" 1 ?data twice_failing 3,
      unfolded Let_def]
  note f = uploadPart_retry_budget [of "''t''" "''k''" "''u''" 1 ?data never_accepting 6,
      unfolded Let_def]
  have ok: "attempt_succeeds (twice_failing 2)"
    by code_simp
  have bad: "\<not> attempt_succeeds (twice_failing 0)" "\<not> attempt_succeeds (twice_failing 1)"
    by code_simp+
  have r2: "twice_failing 2 = (SignOk ''https://store/part'', PutOk (Some [CHR 0x22, CHR ''e'', CHR 0x22]))"
    by (simp add: twice_failing_def)
  have "(2::nat) < 3 \<and> attempt_succeeds (twice_failing 2)" using ok by simp
  then have "\<not> (\<forall>a<3. \<not> attempt_succeeds (twice_failing a))" by blast
  with t have notisl: "\<not> isl (snd ?run)" by blast
  with t have last: "0 < attempts_made (fst ?run)"
      "attempt_succeeds (twice_failing (attempts_made (fst ?run) - 1))" by blast+
  from t have le: "attempts_made (fst ?run) \<le> 3" by blast
  have "attempts_made (fst ?run) - 1 \<noteq> 0" "attempts_made (fst ?run) - 1 \<noteq> 1"
    using last(2) bad by auto
  with le last(1) have n: "attempts_made (fst ?run) = 3" by arith
  from t notisl obtain url header where
    "twice_failing (attempts_made (fst ?run) - 1) = (SignOk url, PutOk (Some header))"
    "snd ?run = Inr \<lparr>PartNumber = 1, ETag = filter (\<lambda>c. c \<noteq> CHR 0x22) header\<rparr>"
    by blast
  then have res: "snd ?run = Inr \<lparr>PartNumber = 1, ETag = ''e''\<rparr>"
    by (auto simp: n r2)
  from t have "fst ?run = concat (map (\<lambda>a.
         (case fst (twice_failing a) of
            SignOk url \<Rightarrow> [Fetch (SignReq ''t'' ''k'' ''u'' (String 1)), Fetch (PutReq url ?data)]
          | _ \<Rightarrow> [Fetch (SignReq ''t'' ''k'' ''u'' (String 1))])
         @ (if a + 1 < attempts_made (fst ?run) then [Sleep (min (1000 * 2 ^ a) 10000)] else []))
         [0..<attempts_made (fst ?run)])"
    by blast
  also have "\<dots> = [Fetch (SignReq ''t'' ''k'' ''u'' ''1''),
           Fetch (PutReq ''https://store/part'' ?data), Sleep 1000,
           Fetch (SignReq ''t'' ''k'' ''u'' ''1''),
           Fetch (PutReq ''https://store/part'' ?data), Sleep 2000,
           Fetch (SignReq ''t'' ''k'' ''u'' ''1''),
           Fetch (PutReq ''https://store/part'' ?data)]"
    unfolding n by code_simp
  finally have evs: "fst ?run = [Fetch (SignReq ''t'' ''k'' ''u'' ''1''),
           Fetch (PutReq ''https://store/part'' ?data), Sleep 1000,
           Fetch (SignReq ''t'' ''k'' ''u'' ''1''),
           Fetch (PutReq ''https://store/part'' ?data), Sleep 2000,
           Fetch (SignReq ''t'' ''k'' ''u'' ''1''),
           Fetch (PutReq ''https://store/part'' ?data)]" .
  have never: "\<forall>a<6. \<not> attempt_succeeds (never_accepting a)"
    by (simp add: never_accepting_def attempt_succeeds_def)
  with f have fisl: "isl (snd ?bad)" by blast
  with f have fn: "attempts_made (fst ?bad) = 6" by blast
  from f have "delays (fst ?bad) = map (\<lambda>a. min (1000 * 2 ^ a) 10000) [0..<attempts_made (fst ?bad) - 1]"
    by blast
  also have "\<dots> = [1000, 2000, 4000, 8000, 10000]"
    unfolding fn by code_simp
  finally have fd: "delays (fst ?bad) = [1000, 2000, 4000, 8000, 10000]" .
  show ?thesis
    using n evs res fisl fn fd by (simp add: prod_eq_iff)
qed

section \<open>One file: \<^verbatim>\<open>uploadScreenshot\<close>\<close>

lemma progress_values_append:
  "progress_values (xs @ ys) = progress_values xs @ progress_values ys"
  by (induction xs rule: progress_values.induct) simp_all

lemma abort_calls_append: "abort_calls (xs @ ys) = abort_calls xs @ abort_calls ys"
  by (induction xs rule: abort_calls.induct) simp_all

lemma complete_calls_append: "complete_calls (xs @ ys) = complete_calls xs @ complete_calls ys"
  by (induction xs rule: complete_calls.induct) simp_all

lemma part_events_silent:
  "list_all part_event evs \<Longrightarrow>
     progress_values evs = [] \<and> abort_calls evs = [] \<and> complete_calls evs = []
     \<and> ConsoleWarn \<notin> set evs"
proof (induction evs)
  case Nil
  then show ?case by simp
next
  case (Cons e evs)
  then have "part_event e" by simp
  then have "progress_values (e # evs) = progress_values evs
     \<and> abort_calls (e # evs) = abort_calls evs \<and> complete_calls (e # evs) = complete_calls evs
     \<and> e \<noteq> ConsoleWarn"
    by (induction e rule: part_event.induct) simp_all
  with Cons show ?case by auto
qed

lemma upload_attempt_part_events:
  "list_all part_event (fst (upload_attempt h k u pn data r))"
  using upload_attempt_shape [of h k u pn data r] by auto

lemma uploadPart_part_events:
  "list_all part_event (fst (uploadPart h k u pn data resp m))"
proof -
  define body where "body = (\<lambda>a. upload_attempt h k u pn data (resp a))"
  have b: "list_all part_event (fst (body a))" for a
    by (simp add: body_def upload_attempt_part_events)
  have c: "list_all part_event (concat (map (\<lambda>i. fst (body i) @
        (if i + 1 < m then [Sleep (backoff_delay i)] else [])) xs))" for xs
    by (induction xs) (simp_all add: b)
  show ?thesis
    using uploadPart_loop_events [of 0 m body None] b c
    by (simp add: uploadPart_def body_def [symmetric] Let_def)
qed

lemma uploadPart_part:
  assumes "snd (uploadPart h k u pn data resp m) = Inr part"
  shows "PartNumber part = pn \<and> ETag part \<noteq> []"
proof -
  define body where "body = (\<lambda>a. upload_attempt h k u pn data (resp a))"
  define j where "j = length (takeWhile (\<lambda>j. isl (snd (body j))) [0..<m])"
  have r: "(j < m \<longrightarrow> snd (uploadPart_loop body m 0 None) = snd (body j))
     \<and> (\<not> j < m \<longrightarrow> isl (snd (uploadPart_loop body m 0 None)))"
    using uploadPart_loop_result [of 0 m body None] by (simp add: Let_def j_def)
  have run: "snd (uploadPart_loop body m 0 None) = Inr part"
    using assms by (simp add: uploadPart_def body_def)
  then have "j < m" using r by auto
  with r run have "snd (body j) = Inr part" by simp
  then show ?thesis unfolding body_def by (rule upload_attempt_part)
qed

lemma uploadPart_succeeds:
  assumes "a < m" and "attempt_succeeds (resp a)"
  shows "\<not> isl (snd (uploadPart h k u pn data resp m))"
proof -
  define body where "body = (\<lambda>a. upload_attempt h k u pn data (resp a))"
  define j where "j = length (takeWhile (\<lambda>j. isl (snd (body j))) [0..<m])"
  have r: "(j < m \<longrightarrow> snd (uploadPart_loop body m 0 None) = snd (body j))
     \<and> (\<not> j < m \<longrightarrow> isl (snd (uploadPart_loop body m 0 None)))"
    using uploadPart_loop_result [of 0 m body None] by (simp add: Let_def j_def)
  have jm: "j < m"
  proof (rule ccontr)
    assume "\<not> j < m"
    then have "length (takeWhile (\<lambda>j. isl (snd (body j))) [0..<m]) = length [0..<m]"
      using length_takeWhile_le [of "\<lambda>j. isl (snd (body j))" "[0..<m]"] by (simp add: j_def)
    then have "takeWhile (\<lambda>j. isl (snd (body j))) [0..<m] = [0..<m]"
      using takeWhile_eq_take [of "\<lambda>j. isl (snd (body j))" "[0..<m]"] by simp
    then have "\<forall>x\<in>set [0..<m]. isl (snd (body x))"
      by (simp only: takeWhile_eq_all_conv)
    with assms(1) have "isl (snd (body a))" by simp
    with assms(2) show False by (simp add: body_def upload_attempt_result)
  qed
  have "\<not> isl (snd (body j))"
    using nth_length_takeWhile [of "\<lambda>j. isl (snd (body j))" "[0..<m]"] jm
    by (simp add: j_def)
  with r jm show ?thesis by (simp add: uploadPart_def body_def)
qed

lemma upload_parts_step:
  assumes "pn \<le> totalParts sess"
  shows "upload_parts h blob sess resp cb pn acc =
     (case uploadPart h (key sess) (uploadId sess) pn
             (blob_slice blob ((pn - 1) * partSize sess)
                (min ((pn - 1) * partSize sess + partSize sess) (blob_size blob)))
             (resp pn) 3 of
        (evs, Inl e) \<Rightarrow> (evs, Inl e)
      | (evs, Inr part) \<Rightarrow>
          (evs @ (if cb then [OnProgress (min (pn * partSize sess) (blob_size blob))
                                (blob_size blob)] else [])
             @ fst (upload_parts h blob sess resp cb (pn + 1) (acc @ [part])),
           snd (upload_parts h blob sess resp cb (pn + 1) (acc @ [part]))))"
  using assms by (subst upload_parts.simps) (simp add: Let_def)

lemma upload_parts_done:
  assumes "\<not> pn \<le> totalParts sess"
  shows "upload_parts h blob sess resp cb pn acc = ([], Inr acc)"
  using assms by (subst upload_parts.simps) simp

lemma upload_parts_quiet:
  "abort_calls (fst (upload_parts h blob sess resp cb pn acc)) = []
   \<and> complete_calls (fst (upload_parts h blob sess resp cb pn acc)) = []
   \<and> ConsoleWarn \<notin> set (fst (upload_parts h blob sess resp cb pn acc))"
proof (induction h blob sess resp cb pn acc rule: upload_parts.induct)
  case (1 h blob sess resp cb pn acc)
  show ?case
  proof (cases "pn \<le> totalParts sess")
    case False
    then show ?thesis by (simp add: upload_parts_done)
  next
    case True
    define data where "data = blob_slice blob ((pn - 1) * partSize sess)
                (min ((pn - 1) * partSize sess + partSize sess) (blob_size blob))"
    obtain evs r where up: "uploadPart h (key sess) (uploadId sess) pn data (resp pn) 3 = (evs, r)"
      by (cases "uploadPart h (key sess) (uploadId sess) pn data (resp pn) 3")
    have silent: "progress_values evs = [] \<and> abort_calls evs = [] \<and> complete_calls evs = []
        \<and> ConsoleWarn \<notin> set evs"
      using uploadPart_part_events [of h "key sess" "uploadId sess" pn data "resp pn" 3] up
      by (simp add: part_events_silent)
    show ?thesis
    proof (cases r)
      case (Inl e)
      with True up silent show ?thesis
        by (simp add: upload_parts_step data_def [symmetric])
    next
      case (Inr part)
      have ih: "abort_calls (fst (upload_parts h blob sess resp cb (pn + 1) (acc @ [part]))) = []
         \<and> complete_calls (fst (upload_parts h blob sess resp cb (pn + 1) (acc @ [part]))) = []
         \<and> ConsoleWarn \<notin> set (fst (upload_parts h blob sess resp cb (pn + 1) (acc @ [part])))"
        by (rule "1.IH" [OF True refl refl refl up [unfolded data_def, symmetric] Inr refl])
      with True up silent Inr show ?thesis
        by (simp add: upload_parts_step data_def [symmetric] abort_calls_append
              complete_calls_append)
    qed
  qed
qed

lemma upload_parts_result:
  assumes "snd (upload_parts h blob sess resp cb pn acc) = Inr parts"
  shows "map PartNumber parts = map PartNumber acc @ [pn..totalParts sess]
     \<and> ((\<forall>x\<in>set acc. ETag x \<noteq> []) \<longrightarrow> (\<forall>x\<in>set parts. ETag x \<noteq> []))"
  using assms
proof (induction h blob sess resp cb pn acc rule: upload_parts.induct)
  case (1 h blob sess resp cb pn acc)
  show ?case
  proof (cases "pn \<le> totalParts sess")
    case False
    with "1.prems" show ?thesis by (simp add: upload_parts_done)
  next
    case True
    define data where "data = blob_slice blob ((pn - 1) * partSize sess)
                (min ((pn - 1) * partSize sess + partSize sess) (blob_size blob))"
    obtain evs r where up: "uploadPart h (key sess) (uploadId sess) pn data (resp pn) 3 = (evs, r)"
      by (cases "uploadPart h (key sess) (uploadId sess) pn data (resp pn) 3")
    show ?thesis
    proof (cases r)
      case (Inl e)
      with True up "1.prems" show ?thesis
        by (simp add: upload_parts_step data_def [symmetric])
    next
      case (Inr part)
      have rest: "snd (upload_parts h blob sess resp cb (pn + 1) (acc @ [part])) = Inr parts"
        using True up Inr "1.prems" by (simp add: upload_parts_step data_def [symmetric])
      have ih: "map PartNumber parts = map PartNumber (acc @ [part]) @ [pn + 1..totalParts sess]
         \<and> ((\<forall>x\<in>set (acc @ [part]). ETag x \<noteq> []) \<longrightarrow> (\<forall>x\<in>set parts. ETag x \<noteq> []))"
        by (rule "1.IH" [OF True refl refl refl up [unfolded data_def, symmetric] Inr refl rest])
      have part: "PartNumber part = pn \<and> ETag part \<noteq> []"
        using uploadPart_part [of h "key sess" "uploadId sess" pn data "resp pn" 3 part] up Inr
        by simp
      have u: "[pn..totalParts sess] = pn # [pn + 1..totalParts sess]"
        using True by (rule upto_rec1)
      have m: "map PartNumber parts = map PartNumber acc @ pn # [pn + 1..totalParts sess]"
        using ih part by simp
      have e: "(\<forall>x\<in>set acc. ETag x \<noteq> []) \<longrightarrow> (\<forall>x\<in>set parts. ETag x \<noteq> [])"
        using ih part by simp
      show ?thesis unfolding u using m e by blast
    qed
  qed
qed

lemma upload_parts_progress:
  "\<exists>j. pn - 1 \<le> j \<and> j \<le> max (totalParts sess) (pn - 1)
      \<and> progress_values (fst (upload_parts h blob sess resp True pn acc))
          = map (\<lambda>p. min (p * partSize sess) (blob_size blob)) [pn..j]
      \<and> (\<not> isl (snd (upload_parts h blob sess resp True pn acc))
           \<longrightarrow> j = max (totalParts sess) (pn - 1))"
proof (induction h blob sess resp "True" pn acc rule: upload_parts.induct)
  case (1 h blob sess resp pn acc)
  show ?case
  proof (cases "pn \<le> totalParts sess")
    case False
    then show ?thesis by (simp add: upload_parts_done)
  next
    case True
    define data where "data = blob_slice blob ((pn - 1) * partSize sess)
                (min ((pn - 1) * partSize sess + partSize sess) (blob_size blob))"
    obtain evs r where up: "uploadPart h (key sess) (uploadId sess) pn data (resp pn) 3 = (evs, r)"
      by (cases "uploadPart h (key sess) (uploadId sess) pn data (resp pn) 3")
    have silent: "progress_values evs = []"
      using uploadPart_part_events [of h "key sess" "uploadId sess" pn data "resp pn" 3] up
      by (simp add: part_events_silent)
    show ?thesis
    proof (cases r)
      case (Inl e)
      have "upload_parts h blob sess resp True pn acc = (evs, Inl e)"
        using True up Inl by (simp add: upload_parts_step data_def [symmetric])
      with silent True show ?thesis
        by (intro exI [of _ "pn - 1"]) simp
    next
      case (Inr part)
      obtain j where j: "pn \<le> j" "j \<le> max (totalParts sess) pn"
          "progress_values (fst (upload_parts h blob sess resp True (pn + 1) (acc @ [part])))
             = map (\<lambda>p. min (p * partSize sess) (blob_size blob)) [pn + 1..j]"
          "\<not> isl (snd (upload_parts h blob sess resp True (pn + 1) (acc @ [part])))
             \<longrightarrow> j = max (totalParts sess) pn"
        using "1.hyps" [OF True refl refl refl _ Inr refl] up by (auto simp: data_def)
      have unf: "upload_parts h blob sess resp True pn acc =
          (evs @ [OnProgress (min (pn * partSize sess) (blob_size blob)) (blob_size blob)]
             @ fst (upload_parts h blob sess resp True (pn + 1) (acc @ [part])),
           snd (upload_parts h blob sess resp True (pn + 1) (acc @ [part])))"
        using True up Inr by (simp add: upload_parts_step data_def [symmetric])
      have upto: "[pn..j] = pn # [pn + 1..j]"
        using j(1) by (simp add: upto_rec1)
      have mx: "max (totalParts sess) pn = max (totalParts sess) (pn - 1)"
        using True by simp
      show ?thesis
        using j silent True
        by (intro exI [of _ j]) (simp add: unf progress_values_append upto mx)
    qed
  qed
qed

lemma upload_parts_succeed:
  assumes "\<forall>p. pn \<le> p \<and> p \<le> totalParts sess \<longrightarrow> part_succeeds script p"
  shows "\<not> isl (snd (upload_parts h blob sess (part_response script) cb pn acc))"
  using assms
proof (induction h blob sess "part_response script" cb pn acc rule: upload_parts.induct)
  case (1 h blob sess cb pn acc)
  show ?case
  proof (cases "pn \<le> totalParts sess")
    case False
    then show ?thesis by (simp add: upload_parts_done)
  next
    case True
    define data where "data = blob_slice blob ((pn - 1) * partSize sess)
                (min ((pn - 1) * partSize sess + partSize sess) (blob_size blob))"
    obtain evs r where up:
      "uploadPart h (key sess) (uploadId sess) pn data (part_response script pn) 3 = (evs, r)"
      by (cases "uploadPart h (key sess) (uploadId sess) pn data (part_response script pn) 3")
    have "part_succeeds script pn" using "1.prems" True by simp
    then obtain a where a: "a < 3" "attempt_succeeds (part_response script pn a)"
      by (auto simp: part_succeeds_def list_ex_iff)
    have "\<not> isl r"
      using uploadPart_succeeds [where a = a and m = 3 and resp = "part_response script pn"
          and h = h and k = "key sess" and u = "uploadId sess" and pn = pn and data = data]
        a up by simp
    then obtain part where Inr: "r = Inr part" by (cases r) simp_all
    have "\<not> isl (snd (upload_parts h blob sess (part_response script) cb (pn + 1) (acc @ [part])))"
      using "1.hyps" [OF True refl refl refl _ Inr refl] up "1.prems" by (simp add: data_def)
    with True up Inr show ?thesis
      by (simp add: upload_parts_step data_def [symmetric])
  qed
qed

lemma uploadScreenshot_parts_failed:
  assumes "dataUrlToBlob dataUrl = Inr blob" and "create_response script = CreateOk sess"
    and "upload_parts h blob sess (part_response script) cb 1 [] = (evs, Inl e)"
  shows "uploadScreenshot dataUrl fname h cb script =
     (Fetch (CreateReq h fname ''image/png'' (blob_size blob)) # evs, Inl e)"
  using assms by (simp add: uploadScreenshot_def)

lemma uploadScreenshot_parts_done:
  assumes "dataUrlToBlob dataUrl = Inr blob" and "create_response script = CreateOk sess"
    and "upload_parts h blob sess (part_response script) cb 1 [] = (evs, Inr cp)"
  shows "uploadScreenshot dataUrl fname h cb script =
     (case complete_response script of
        CompleteRejected \<Rightarrow>
          (Fetch (CreateReq h fname ''image/png'' (blob_size blob)) # evs @
             [Fetch (CompleteReq h (key sess) (uploadId sess) (sort_key PartNumber cp))],
           Inl FetchRejected)
      | CompleteOk \<Rightarrow>
          (Fetch (CreateReq h fname ''image/png'' (blob_size blob)) # evs @
             [Fetch (CompleteReq h (key sess) (uploadId sess) (sort_key PartNumber cp))],
           Inr (key sess))
      | CompleteNotOk body \<Rightarrow>
          (Fetch (CreateReq h fname ''image/png'' (blob_size blob)) # evs @
             [Fetch (CompleteReq h (key sess) (uploadId sess) (sort_key PartNumber cp))] @
             (case abort_response script of
                AbortRejected \<Rightarrow> [Fetch (AbortReq h (key sess) (uploadId sess)), ConsoleWarn]
              | AbortResolved \<Rightarrow> [Fetch (AbortReq h (key sess) (uploadId sess))]),
           Inl (error_of_body body ''Failed to complete upload'')))"
  using assms
  by (cases "complete_response script") (simp_all add: uploadScreenshot_def Let_def)

lemma uploadScreenshot_not_created:
  assumes "\<forall>sess. create_response script \<noteq> CreateOk sess"
  shows "complete_calls (fst (uploadScreenshot dataUrl fname h cb script)) = []
     \<and> abort_calls (fst (uploadScreenshot dataUrl fname h cb script)) = []
     \<and> progress_values (fst (uploadScreenshot dataUrl fname h cb script)) = []
     \<and> isl (snd (uploadScreenshot dataUrl fname h cb script))"
  using assms
  by (cases "dataUrlToBlob dataUrl"; cases "create_response script")
     (simp_all add: uploadScreenshot_def)

lemma complete_calls_uploadScreenshot:
  assumes "create_response script = CreateOk sess"
    and "parts \<in> set (complete_calls (fst (uploadScreenshot dataUrl fname h cb script)))"
  shows "map PartNumber parts = [1..totalParts sess] \<and> (\<forall>p\<in>set parts. ETag p \<noteq> [])"
proof (cases "dataUrlToBlob dataUrl")
  case (Inl e)
  with assms(2) show ?thesis by (simp add: uploadScreenshot_def)
next
  case (Inr blob)
  obtain evs r where up: "upload_parts h blob sess (part_response script) cb 1 [] = (evs, r)"
    by (cases "upload_parts h blob sess (part_response script) cb 1 []")
  have quiet: "complete_calls evs = []"
    using upload_parts_quiet [of h blob sess "part_response script" cb 1 "[]"] up by simp
  show ?thesis
  proof (cases r)
    case (Inl e)
    with assms(2) quiet show ?thesis
      by (simp add: uploadScreenshot_parts_failed [OF Inr assms(1) up [unfolded Inl]])
  next
    case cp: (Inr cp)
    have res: "map PartNumber cp = [1..totalParts sess] \<and> (\<forall>x\<in>set cp. ETag x \<noteq> [])"
      using upload_parts_result [of h blob sess "part_response script" cb 1 "[]" cp] up cp
      by simp
    then have "sorted (map PartNumber cp)" by simp
    then have same: "sort_key PartNumber cp = cp" by (rule sort_key_id_if_sorted)
    have "parts = cp"
      using assms(2) quiet
      by (cases "complete_response script"; cases "abort_response script")
         (simp_all add: uploadScreenshot_parts_done [OF Inr assms(1) up [unfolded cp]]
            complete_calls_append same)
    with res show ?thesis by simp
  qed
qed

text \<open>
  C6. Whenever \<^verbatim>\<open>uploadScreenshot\<close> sends the completion request of a session with
  \<open>totalParts \<ge> 0\<close>, the parts it submits are \<open>totalParts\<close> in number, their part numbers
  are exactly \<open>1, \<dots>, totalParts\<close> in ascending order, each once, and every entity tag is a
  non-empty string.
\<close>

theorem complete_parts_numbered:
  assumes "create_response script = CreateOk sess"
    and "parts \<in> set (complete_calls (fst (uploadScreenshot dataUrl fname h cb script)))"
    and "0 \<le> totalParts sess"
  shows "int (length parts) = totalParts sess
     \<and> map PartNumber parts = [1..totalParts sess]
     \<and> sorted (map PartNumber parts) \<and> distinct (map PartNumber parts)
     \<and> (\<forall>p\<in>set parts. ETag p \<noteq> [])"
proof -
  have c: "map PartNumber parts = [1..totalParts sess] \<and> (\<forall>p\<in>set parts. ETag p \<noteq> [])"
    using assms(1,2) by (rule complete_calls_uploadScreenshot)
  then have "length (map PartNumber parts) = length [1..totalParts sess]" by simp
  then have "int (length parts) = totalParts sess" using assms(3) by simp
  moreover have "sorted (map PartNumber parts)" "distinct (map PartNumber parts)"
    using c by simp_all
  ultimately show ?thesis using c by blast
qed

theorem complete_parts_numbered_witness:
  "create_response accepting_script = CreateOk two_part_session
   \<and> complete_calls (fst (uploadScreenshot ''data:image/png;base64,AAAA'' ''page_1.png'' ''t'' True
         accepting_script))
       = [[\<lparr>PartNumber = 1, ETag = ''e''\<rparr>, \<lparr>PartNumber = 2, ETag = ''e''\<rparr>]]
   \<and> 0 \<le> totalParts two_part_session
   \<and> int (length [\<lparr>PartNumber = 1, ETag = ''e''\<rparr>, \<lparr>PartNumber = 2, ETag = ''e''\<rparr>])
       = totalParts two_part_session
   \<and> map PartNumber [\<lparr>PartNumber = 1, ETag = ''e''\<rparr>, \<lparr>PartNumber = 2, ETag = ''e''\<rparr>]
       = [1..totalParts two_part_session]"
proof -
  let ?parts = "[\<lparr>PartNumber = 1, ETag = ''e''\<rparr>, \<lparr>PartNumber = 2, ETag = ''e''\<rparr>]"
  have c: "create_response accepting_script = CreateOk two_part_session"
    by (simp add: accepting_script_def)
  have calls: "complete_calls (fst (uploadScreenshot ''data:image/png;base64,AAAA'' ''page_1.png''
      ''t'' True accepting_script)) = [?parts]"
    by code_simp
  have n: "0 \<le> totalParts two_part_session"
    by (simp add: two_part_session_def)
  have m: "?parts \<in> set (complete_calls (fst (uploadScreenshot ''data:image/png;base64,AAAA''
      ''page_1.png'' ''t'' True accepting_script)))"
    unfolding calls by simp
  show ?thesis
    using complete_parts_numbered [OF c m n] c calls n by blast
qed

text \<open>
  C5. When the blob decodes, the session is created, every part is accepted within its
  attempts and the completion request gets a response that is not \<^verbatim>\<open>ok\<close>, then
  \<^verbatim>\<open>uploadScreenshot\<close> issues exactly one abort request, with the key and the upload id of
  the session. Whatever becomes of that request (\<open>ab\<close>), the error thrown is the one read
  from the completion response; a rejected abort only leaves a console warning.
\<close>

theorem finalize_failure_aborts_once:
  assumes "dataUrlToBlob dataUrl = Inr blob"
    and "create_response script = CreateOk sess"
    and "parts_succeed script sess"
    and "complete_response script = CompleteNotOk body"
  shows "abort_calls (fst (uploadScreenshot dataUrl fname h cb (script\<lparr>abort_response := ab\<rparr>)))
           = [(key sess, uploadId sess)]
     \<and> snd (uploadScreenshot dataUrl fname h cb (script\<lparr>abort_response := ab\<rparr>))
           = Inl (error_of_body body ''Failed to complete upload'')
     \<and> (ConsoleWarn \<in> set (fst (uploadScreenshot dataUrl fname h cb (script\<lparr>abort_response := ab\<rparr>)))
          = (ab = AbortRejected))"
proof -
  let ?script = "script\<lparr>abort_response := ab\<rparr>"
  obtain evs r where up: "upload_parts h blob sess (part_response ?script) cb 1 [] = (evs, r)"
    by (cases "upload_parts h blob sess (part_response ?script) cb 1 []")
  have "\<forall>p. 1 \<le> p \<and> p \<le> totalParts sess \<longrightarrow> part_succeeds script p"
    using assms(3) by (simp add: parts_succeed_def list_all_iff)
  then have "\<not> isl (snd (upload_parts h blob sess (part_response script) cb 1 []))"
    by (rule upload_parts_succeed)
  then obtain cp where cp: "r = Inr cp" using up by (cases r) simp_all
  have quiet: "abort_calls evs = []"
    using upload_parts_quiet [of h blob sess "part_response ?script" cb 1 "[]"] up by simp
  have pe: "ConsoleWarn \<notin> set evs"
    using upload_parts_quiet [of h blob sess "part_response ?script" cb 1 "[]"] up by simp
  have cr: "create_response ?script = CreateOk sess" using assms(2) by simp
  note run = uploadScreenshot_parts_done [OF assms(1) cr up [unfolded cp], of fname]
  show ?thesis
    unfolding run using quiet assms(4) pe
    by (cases ab) (simp_all add: abort_calls_append)
qed

theorem finalize_failure_aborts_once_witness:
  "dataUrlToBlob ''data:image/png;base64,AAAA'' = Inr \<lparr>bytes = [0, 0, 0], type = ''image/png''\<rparr>
   \<and> create_response refusing_completion = CreateOk two_part_session
   \<and> parts_succeed refusing_completion two_part_session
   \<and> complete_response refusing_completion = CompleteNotOk (ErrorBody (Some ''boom''))
   \<and> abort_calls (fst (uploadScreenshot ''data:image/png;base64,AAAA'' ''page_1.png'' ''t'' True
         (refusing_completion\<lparr>abort_response := AbortRejected\<rparr>)))
       = [(key two_part_session, uploadId two_part_session)]
   \<and> snd (uploadScreenshot ''data:image/png;base64,AAAA'' ''page_1.png'' ''t'' True
         (refusing_completion\<lparr>abort_response := AbortRejected\<rparr>))
       = Inl (Error ''boom'')"
proof -
  have d: "dataUrlToBlob ''data:image/png;base64,AAAA''
      = Inr \<lparr>bytes = [0, 0, 0], type = ''image/png''\<rparr>"
    by code_simp
  have c: "create_response refusing_completion = CreateOk two_part_session"
    by (simp add: refusing_completion_def accepting_script_def)
  have p: "parts_succeed refusing_completion two_part_session"
    by code_simp
  have f: "complete_response refusing_completion = CompleteNotOk (ErrorBody (Some ''boom''))"
    by (simp add: refusing_completion_def)
  have e: "error_of_body (ErrorBody (Some ''boom'')) ''Failed to complete upload'' = Error ''boom''"
    by (simp add: error_of_body_def)
  show ?thesis
    using finalize_failure_aborts_once [OF d c p f, of "''page_1.png''" "''t''" True AbortRejected]
      d c p f e
    by simp
qed

section \<open>The pool: turns of the workers\<close>

lemma worker_next_empty:
  "queue p = [] \<Longrightarrow> worker_next b p = (Returned, p)"
  by (simp add: worker_next_def)

lemma worker_next_shift:
  "queue p = index # rest \<Longrightarrow>
   worker_next b p =
     (Running index (fst (file_run b index)) (snd (file_run b index)), p\<lparr>queue := rest\<rparr>)"
  by (simp add: worker_next_def file_run_def Let_def)

lemma step_out_of_range: "\<not> w < length (workers p) \<Longrightarrow> step b w p = p"
  by (simp add: step_def)

lemma step_settled:
  "w < length (workers p) \<Longrightarrow> \<not> is_running (workers p ! w) \<Longrightarrow> step b w p = p"
  by (cases "workers p ! w") (simp_all add: step_def)

lemma step_event:
  assumes "w < length (workers p)" and "workers p ! w = Running index (e # es) r"
    and "progress_values [e] = []"
  shows "step b w p = p\<lparr>network := network p @ [(index, e)],
                         workers := (workers p)[w := Running index es r]\<rparr>"
proof (cases e)
  case (OnProgress u t)
  with assms(3) show ?thesis by simp
qed (use assms(1,2) in \<open>simp_all add: step_def\<close>)

lemma step_progress:
  assumes "w < length (workers p)" and "workers p ! w = Running index (OnProgress u t # es) r"
  shows "step b w p =
     (file_progress b index u p)\<lparr>workers := (workers p)[w := Running index es r]\<rparr>"
  using assms by (simp add: step_def file_progress_def Let_def)

lemma step_throw:
  assumes "w < length (workers p)" and "workers p ! w = Running index [] (Inl e)"
  shows "step b w p =
     p\<lparr>workers := (workers p)[w := Threw e],
       rejection := (case rejection p of None \<Rightarrow> Some e | Some first \<Rightarrow> Some first)\<rparr>"
  using assms by (simp add: step_def)

lemma step_finish_last:
  assumes "w < length (workers p)" and "workers p ! w = Running index [] (Inr k)"
    and "queue p = []"
  shows "step b w p =
     p\<lparr>results := (results p)[index := Some \<lparr>result_key = k, filename = page_filename index\<rparr>],
       bytesPerScreenshot :=
         map_set index (sizePerScreenshot b ! index) (bytesPerScreenshot p),
       workers := (workers p)[w := Returned]\<rparr>"
  using assms by (simp add: step_def worker_next_def Let_def)

lemma step_finish_next:
  assumes "w < length (workers p)" and "workers p ! w = Running index [] (Inr k)"
    and "queue p = j # rest"
  shows "step b w p =
     p\<lparr>results := (results p)[index := Some \<lparr>result_key = k, filename = page_filename index\<rparr>],
       bytesPerScreenshot :=
         map_set index (sizePerScreenshot b ! index) (bytesPerScreenshot p),
       queue := rest,
       workers := (workers p)[w := Running j (fst (file_run b j)) (snd (file_run b j))]\<rparr>"
  using assms by (simp add: step_def worker_next_def file_run_def Let_def)

text \<open>The shapes a turn can take.\<close>

lemma step_cases [case_names idle event progress throw finish_last finish_next]:
  assumes "step b w p = p \<Longrightarrow> P"
    and "\<And>index e es r. w < length (workers p) \<Longrightarrow> workers p ! w = Running index (e # es) r \<Longrightarrow>
           progress_values [e] = [] \<Longrightarrow>
           step b w p = p\<lparr>network := network p @ [(index, e)],
                           workers := (workers p)[w := Running index es r]\<rparr> \<Longrightarrow> P"
    and "\<And>index u t es r. w < length (workers p) \<Longrightarrow>
           workers p ! w = Running index (OnProgress u t # es) r \<Longrightarrow>
           step b w p = (file_progress b index u p)
                          \<lparr>workers := (workers p)[w := Running index es r]\<rparr> \<Longrightarrow> P"
    and "\<And>index e. w < length (workers p) \<Longrightarrow> workers p ! w = Running index [] (Inl e) \<Longrightarrow>
           step b w p = p\<lparr>workers := (workers p)[w := Threw e],
             rejection := (case rejection p of None \<Rightarrow> Some e | Some first \<Rightarrow> Some first)\<rparr> \<Longrightarrow> P"
    and "\<And>index k. w < length (workers p) \<Longrightarrow> workers p ! w = Running index [] (Inr k) \<Longrightarrow>
           queue p = [] \<Longrightarrow>
           step b w p = p\<lparr>results := (results p)
                 [index := Some \<lparr>result_key = k, filename = page_filename index\<rparr>],
               bytesPerScreenshot :=
                 map_set index (sizePerScreenshot b ! index) (bytesPerScreenshot p),
               workers := (workers p)[w := Returned]\<rparr> \<Longrightarrow> P"
    and "\<And>index k j rest. w < length (workers p) \<Longrightarrow> workers p ! w = Running index [] (Inr k) \<Longrightarrow>
           queue p = j # rest \<Longrightarrow>
           step b w p = p\<lparr>results := (results p)
                 [index := Some \<lparr>result_key = k, filename = page_filename index\<rparr>],
               bytesPerScreenshot :=
                 map_set index (sizePerScreenshot b ! index) (bytesPerScreenshot p),
               queue := rest,
               workers := (workers p)[w := Running j (fst (file_run b j)) (snd (file_run b j))]\<rparr>
           \<Longrightarrow> P"
  shows P
proof (cases "w < length (workers p)")
  case False
  then show P using assms(1) by (simp add: step_out_of_range)
next
  case True
  show P
  proof (cases "workers p ! w")
    case Returned
    with True show P using assms(1) by (simp add: step_settled)
  next
    case (Threw e)
    with True show P using assms(1) by (simp add: step_settled)
  next
    case (Running index evs r)
    show P
    proof (cases evs)
      case (Cons e es)
      show P
      proof (cases "progress_values [e] = []")
        case quiet: True
        show P using assms(2) [OF True Running [unfolded Cons] quiet]
            step_event [OF True Running [unfolded Cons] quiet] by simp
      next
        case False
        then obtain u t where e: "e = OnProgress u t" by (cases e) simp_all
        show P using assms(3) [OF True Running [unfolded Cons e]]
            step_progress [OF True Running [unfolded Cons e]] by simp
      qed
    next
      case Nil
      show P
      proof (cases r)
        case (Inl e)
        show P using assms(4) [OF True Running [unfolded Nil Inl]]
            step_throw [OF True Running [unfolded Nil Inl]] by simp
      next
        case (Inr k)
        show P
        proof (cases "queue p")
          case empty: Nil
          show P using assms(5) [OF True Running [unfolded Nil Inr] empty]
              step_finish_last [OF True Running [unfolded Nil Inr] empty] by simp
        next
          case (Cons j rest)
          show P using assms(6) [OF True Running [unfolded \<open>evs = []\<close> Inr] Cons]
              step_finish_next [OF True Running [unfolded \<open>evs = []\<close> Inr] Cons] by simp
        qed
      qed
    qed
  qed
qed

lemma file_progress_fields:
  "queue (file_progress b i u p) = queue p"
  "results (file_progress b i u p) = results p"
  "workers (file_progress b i u p) = workers p"
  "network (file_progress b i u p) = network p"
  "rejection (file_progress b i u p) = rejection p"
  "bytesPerScreenshot (file_progress b i u p) = map_set i u (bytesPerScreenshot p)"
  by (simp_all add: file_progress_def Let_def)

lemma length_workers_step: "length (workers (step b w p)) = length (workers p)"
  by (cases b w p rule: step_cases) (simp_all add: file_progress_fields)

lemma length_workers_run: "length (workers (run b sched p)) = length (workers p)"
  by (induction sched arbitrary: p) (simp_all add: length_workers_step)

lemma run_append: "run b (s1 @ s2) p = run b s2 (run b s1 p)"
  by (induction s1 arbitrary: p) simp_all

lemma run_invariant:
  assumes "I p" and "\<And>w p. I p \<Longrightarrow> I (step b w p)"
  shows "I (run b sched p)"
  using assms(1) by (induction sched arbitrary: p) (simp_all add: assms(2))

lemma spawn_closed_form:
  assumes "queue p = [q..<n]" and "q + k \<le> n"
  shows "spawn b k p =
     p\<lparr>queue := [q + k..<n],
       workers := workers p @
         map (\<lambda>j. Running j (fst (file_run b j)) (snd (file_run b j))) [q..<q + k]\<rparr>"
  using assms
proof (induction k arbitrary: p q)
  case 0
  then show ?case by simp
next
  case (Suc k)
  have qn: "q < n" using Suc.prems(2) by simp
  then have qu: "queue p = q # [Suc q..<n]" using Suc.prems(1) by (simp add: upt_conv_Cons)
  define p' where "p' = p\<lparr>queue := [Suc q..<n],
      workers := workers p @ [Running q (fst (file_run b q)) (snd (file_run b q))]\<rparr>"
  have sp: "spawn b (Suc k) p = spawn b k p'"
    by (simp add: worker_next_shift [OF qu] p'_def)
  have ih: "spawn b k p' = p'\<lparr>queue := [Suc q + k..<n],
       workers := workers p' @
         map (\<lambda>j. Running j (fst (file_run b j)) (snd (file_run b j))) [Suc q..<Suc q + k]\<rparr>"
    by (rule Suc.IH) (use Suc.prems(2) in \<open>simp_all add: p'_def\<close>)
  have up: "[q..<q + Suc k] = q # [Suc q..<Suc q + k]"
    using upt_conv_Cons [of q "q + Suc k"] by simp
  show ?case unfolding sp ih up by (simp add: p'_def)
qed

lemma start_pool_closed_form:
  "start_pool b concurrency =
     idle_pool\<lparr>queue := [nat (min concurrency (int (length (screenshots b))))..<length (screenshots b)],
       results := replicate (length (screenshots b)) None,
       workers := map (\<lambda>j. Running j (fst (file_run b j)) (snd (file_run b j)))
                    [0..<nat (min concurrency (int (length (screenshots b))))]\<rparr>"
proof -
  define n where "n = length (screenshots b)"
  define k where "k = nat (min concurrency (int n))"
  define p0 where "p0 = idle_pool\<lparr>queue := [0..<n], results := replicate n None\<rparr>"
  have "k \<le> n" by (simp add: k_def)
  then have "spawn b k p0 = p0\<lparr>queue := [0 + k..<n],
       workers := workers p0 @
         map (\<lambda>j. Running j (fst (file_run b j)) (snd (file_run b j))) [0..<0 + k]\<rparr>"
    by (intro spawn_closed_form) (simp_all add: p0_def)
  then show ?thesis
    by (simp add: start_pool_def Let_def n_def [symmetric] k_def [symmetric] p0_def idle_pool_def)
qed

section \<open>The shape of the pool is invariant\<close>

lemma pool_okI:
  assumes "length (results p) = length (screenshots b)"
    and "queue p = [q..<length (screenshots b)]" and "q \<le> length (screenshots b)"
    and "\<And>w i es r. w < length (workers p) \<Longrightarrow> workers p ! w = Running i es r \<Longrightarrow>
           i < q \<and> r = snd (file_run b i) \<and> (\<exists>pre. fst (file_run b i) = pre @ es)"
    and "\<And>w w' i es r es' r'. w < length (workers p) \<Longrightarrow> w' < length (workers p) \<Longrightarrow>
           workers p ! w = Running i es r \<Longrightarrow> workers p ! w' = Running i es' r' \<Longrightarrow> w' = w"
  shows "pool_ok b p"
proof -
  have "length (screenshots b) - length (queue p) = q" using assms(2,3) by simp
  then show ?thesis
    unfolding pool_ok_def Let_def using assms(1,2,4,5) by (simp (no_asm_simp))
qed

lemma pool_okD:
  assumes "pool_ok b p"
  shows "length (results p) = length (screenshots b)"
    and "queue p = [length (screenshots b) - length (queue p)..<length (screenshots b)]"
    and "\<And>w i es r. w < length (workers p) \<Longrightarrow> workers p ! w = Running i es r \<Longrightarrow>
           i < length (screenshots b) - length (queue p) \<and> r = snd (file_run b i)
           \<and> (\<exists>pre. fst (file_run b i) = pre @ es)"
    and "\<And>w w' i es r es' r'. w < length (workers p) \<Longrightarrow> w' < length (workers p) \<Longrightarrow>
           workers p ! w = Running i es r \<Longrightarrow> workers p ! w' = Running i es' r' \<Longrightarrow> w' = w"
  using assms unfolding pool_ok_def Let_def by blast+

lemma pool_ok_start: "pool_ok b (start_pool b concurrency)"
proof -
  define n where "n = length (screenshots b)"
  define k where "k = nat (min concurrency (int n))"
  have kn: "k \<le> n" by (simp add: k_def)
  have st: "start_pool b concurrency =
     idle_pool\<lparr>queue := [k..<n], results := replicate n None,
       workers := map (\<lambda>j. Running j (fst (file_run b j)) (snd (file_run b j))) [0..<k]\<rparr>"
    by (simp add: start_pool_closed_form n_def k_def)
  show ?thesis
  proof (rule pool_okI [where q = k])
    show "length (results (start_pool b concurrency)) = length (screenshots b)"
      by (simp add: st n_def)
    show "queue (start_pool b concurrency) = [k..<length (screenshots b)]"
      by (simp add: st n_def)
    show "k \<le> length (screenshots b)" using kn by (simp add: n_def)
  next
    fix w i es r
    assume "w < length (workers (start_pool b concurrency))"
      and "workers (start_pool b concurrency) ! w = Running i es r"
    then show "i < k \<and> r = snd (file_run b i) \<and> (\<exists>pre. fst (file_run b i) = pre @ es)"
      by (auto simp: st)
  next
    fix w w' i es r es' r'
    assume "w < length (workers (start_pool b concurrency))"
      and "w' < length (workers (start_pool b concurrency))"
      and "workers (start_pool b concurrency) ! w = Running i es r"
      and "workers (start_pool b concurrency) ! w' = Running i es' r'"
    then show "w' = w" by (auto simp: st)
  qed
qed

lemma pool_ok_step:
  assumes ok: "pool_ok b p"
  shows "pool_ok b (step b w p)"
proof -
  define n where "n = length (screenshots b)"
  define q where "q = n - length (queue p)"
  note d = pool_okD [OF ok, folded n_def, folded q_def]
  have qn: "q \<le> n" by (simp add: q_def)
  show ?thesis
  proof (cases b w p rule: step_cases)
    case idle
    with ok show ?thesis by simp
  next
    case (event index e es r)
    show ?thesis
    proof (rule pool_okI [where q = q])
      fix w' i es' r'
      assume a: "w' < length (workers (step b w p))" "workers (step b w p) ! w' = Running i es' r'"
      show "i < q \<and> r' = snd (file_run b i) \<and> (\<exists>pre. fst (file_run b i) = pre @ es')"
      proof (cases "w' = w")
        case True
        with a event have eq: "i = index" "es' = es" "r' = r" by simp_all
        obtain pre where "fst (file_run b index) = pre @ e # es"
          using d(3) [OF event(1,2)] by blast
        then have "fst (file_run b index) = (pre @ [e]) @ es" by simp
        with d(3) [OF event(1,2)] eq show ?thesis by blast
      next
        case False
        with a event show ?thesis using d(3) [of w' i es' r'] by simp
      qed
    next
      fix w1 w2 i es1 r1 es2 r2
      assume a: "w1 < length (workers (step b w p))" "w2 < length (workers (step b w p))"
        "workers (step b w p) ! w1 = Running i es1 r1"
        "workers (step b w p) ! w2 = Running i es2 r2"
      have o: "\<exists>es r. workers p ! x = Running i es r" if "x < length (workers p)"
        "workers (step b w p) ! x = Running i es' r'" for x es' r'
        using that event by (cases "x = w") (simp_all add: nth_list_update)
      obtain e1 s1 e2 s2 where "workers p ! w1 = Running i e1 s1" "workers p ! w2 = Running i e2 s2"
        using o [of w1 es1 r1] o [of w2 es2 r2] a event by auto
      then show "w2 = w1" using d(4) [of w1 w2] a event by simp
    qed (use d event n_def qn in simp_all)
  next
    case (progress index u t es r)
    show ?thesis
    proof (rule pool_okI [where q = q])
      fix w' i es' r'
      assume a: "w' < length (workers (step b w p))" "workers (step b w p) ! w' = Running i es' r'"
      show "i < q \<and> r' = snd (file_run b i) \<and> (\<exists>pre. fst (file_run b i) = pre @ es')"
      proof (cases "w' = w")
        case True
        with a progress have eq: "i = index" "es' = es" "r' = r"
          by (simp_all add: file_progress_fields)
        obtain pre where "fst (file_run b index) = pre @ OnProgress u t # es"
          using d(3) [OF progress(1,2)] by blast
        then have "fst (file_run b index) = (pre @ [OnProgress u t]) @ es" by simp
        with d(3) [OF progress(1,2)] eq show ?thesis by blast
      next
        case False
        with a progress show ?thesis using d(3) [of w' i es' r']
          by (simp add: file_progress_fields)
      qed
    next
      fix w1 w2 i es1 r1 es2 r2
      assume a: "w1 < length (workers (step b w p))" "w2 < length (workers (step b w p))"
        "workers (step b w p) ! w1 = Running i es1 r1"
        "workers (step b w p) ! w2 = Running i es2 r2"
      have o: "\<exists>es r. workers p ! x = Running i es r" if "x < length (workers p)"
        "workers (step b w p) ! x = Running i es' r'" for x es' r'
        using that progress by (cases "x = w") (simp_all add: nth_list_update file_progress_fields)
      obtain e1 s1 e2 s2 where "workers p ! w1 = Running i e1 s1" "workers p ! w2 = Running i e2 s2"
        using o [of w1 es1 r1] o [of w2 es2 r2] a progress by (auto simp: file_progress_fields)
      then show "w2 = w1" using d(4) [of w1 w2] a progress by (simp add: file_progress_fields)
    qed (use d progress n_def qn in \<open>simp_all add: file_progress_fields\<close>)
  next
    case (throw index e)
    show ?thesis
    proof (rule pool_okI [where q = q])
      fix w' i es' r'
      assume a: "w' < length (workers (step b w p))" "workers (step b w p) ! w' = Running i es' r'"
      then have "w' \<noteq> w" using throw by auto
      with a throw show "i < q \<and> r' = snd (file_run b i) \<and> (\<exists>pre. fst (file_run b i) = pre @ es')"
        using d(3) [of w' i es' r'] by simp
    next
      fix w1 w2 i es1 r1 es2 r2
      assume a: "w1 < length (workers (step b w p))" "w2 < length (workers (step b w p))"
        "workers (step b w p) ! w1 = Running i es1 r1"
        "workers (step b w p) ! w2 = Running i es2 r2"
      then have "w1 \<noteq> w" "w2 \<noteq> w" using throw by auto
      with a throw show "w2 = w1" using d(4) [of w1 w2 i es1 r1 es2 r2] by simp
    qed (use d throw n_def qn in simp_all)
  next
    case (finish_last index k)
    show ?thesis
    proof (rule pool_okI [where q = q])
      fix w' i es' r'
      assume a: "w' < length (workers (step b w p))" "workers (step b w p) ! w' = Running i es' r'"
      then have "w' \<noteq> w" using finish_last by auto
      with a finish_last
      show "i < q \<and> r' = snd (file_run b i) \<and> (\<exists>pre. fst (file_run b i) = pre @ es')"
        using d(3) [of w' i es' r'] by simp
    next
      fix w1 w2 i es1 r1 es2 r2
      assume a: "w1 < length (workers (step b w p))" "w2 < length (workers (step b w p))"
        "workers (step b w p) ! w1 = Running i es1 r1"
        "workers (step b w p) ! w2 = Running i es2 r2"
      then have "w1 \<noteq> w" "w2 \<noteq> w" using finish_last by auto
      with a finish_last show "w2 = w1" using d(4) [of w1 w2 i es1 r1 es2 r2] by simp
    qed (use d finish_last n_def qn in simp_all)
  next
    case (finish_next index k j rest)
    have "j # rest = [q..<n]" using d(2) finish_next(3) by simp
    then have q: "q < n" "j = q" "rest = [Suc q..<n]"
      by (cases "q < n"; simp add: upt_conv_Cons)+
    show ?thesis
    proof (rule pool_okI [where q = "Suc q"])
      fix w' i es' r'
      assume a: "w' < length (workers (step b w p))" "workers (step b w p) ! w' = Running i es' r'"
      show "i < Suc q \<and> r' = snd (file_run b i) \<and> (\<exists>pre. fst (file_run b i) = pre @ es')"
      proof (cases "w' = w")
        case True
        with a finish_next q have eq: "i = q" "es' = fst (file_run b q)" "r' = snd (file_run b q)"
          by auto
        have "fst (file_run b q) = [] @ fst (file_run b q)" by simp
        then have "\<exists>pre. fst (file_run b q) = pre @ fst (file_run b q)" by (rule exI)
        with eq show ?thesis by simp
      next
        case False
        with a finish_next show ?thesis using d(3) [of w' i es' r'] by auto
      qed
    next
      fix w1 w2 i es1 r1 es2 r2
      assume a: "w1 < length (workers (step b w p))" "w2 < length (workers (step b w p))"
        "workers (step b w p) ! w1 = Running i es1 r1"
        "workers (step b w p) ! w2 = Running i es2 r2"
      have old: "i < q" if "x \<noteq> w" "x < length (workers p)"
        "workers (step b w p) ! x = Running i es' r'" for x es' r'
        using that finish_next d(3) [of x i es' r'] by simp
      have new: "i = q" if "workers (step b w p) ! w = Running i es' r'" for es' r'
        using that finish_next q by simp
      show "w2 = w1"
      proof (cases "w1 = w"; cases "w2 = w")
        assume "w1 \<noteq> w" "w2 \<noteq> w"
        with a finish_next show ?thesis using d(4) [of w1 w2 i es1 r1 es2 r2] by simp
      next
        assume c: "w1 = w" "w2 \<noteq> w"
        have "i = q" using new [of es1 r1] a(3) c(1) by simp
        moreover have "i < q"
          using old [OF c(2) _ a(4)] a(2) by (simp add: length_workers_step)
        ultimately show ?thesis by simp
      next
        assume c: "w1 \<noteq> w" "w2 = w"
        have "i = q" using new [of es2 r2] a(4) c(2) by simp
        moreover have "i < q"
          using old [OF c(1) _ a(3)] a(1) by (simp add: length_workers_step)
        ultimately show ?thesis by simp
      qed simp
    qed (use d finish_next q n_def qn in simp_all)
  qed
qed

lemma pool_ok_run: "pool_ok b (run b sched (start_pool b concurrency))"
  by (rule run_invariant [where I = "pool_ok b"]) (simp_all add: pool_ok_start pool_ok_step)

section \<open>The call as a whole\<close>

lemma uploadScreenshots_pool:
  assumes "sizes_of shots = Inr sz"
  shows "uploadScreenshots shots report concurrency (Inr headers) environment sched =
     (let b = \<lparr>screenshots = shots, onProgress = report, authHeaders = headers,
               sizePerScreenshot = sz, env = environment\<rparr>;
          p = run b sched (start_pool b concurrency)
      in (settle p, p))"
  using assms by (simp add: uploadScreenshots_def)

lemma run_no_workers: "workers p = [] \<Longrightarrow> run b sched p = p"
  by (induction sched) (simp_all add: step_out_of_range)



lemma length_filter_mono:
  "(\<And>x. P x \<Longrightarrow> Q x) \<Longrightarrow> length (filter P xs) \<le> length (filter Q xs)"
  by (induction xs) auto

lemma awaits_create_running: "awaits_create w \<Longrightarrow> is_running w"
  by (induction w rule: awaits_create.induct) simp_all

lemma started_pool_workers:
  assumes "sizes_of shots = Inr sz"
  shows "let p = snd (uploadScreenshots shots report concurrency (Inr headers) environment sched);
             n = length shots in
     length (workers p) = nat (min concurrency (int n))
     \<and> queue p = [n - length (queue p)..<n]
     \<and> (\<forall>w<length (workers p). \<forall>w'<length (workers p). \<forall>i.
          running_index (workers p ! w) = Some i \<and> running_index (workers p ! w') = Some i
          \<longrightarrow> w = w')"
proof -
  define b where "b = \<lparr>screenshots = shots, onProgress = report, authHeaders = headers,
               sizePerScreenshot = sz, env = environment\<rparr>"
  define p where "p = run b sched (start_pool b concurrency)"
  have n: "length (screenshots b) = length shots" by (simp add: b_def)
  have pool: "snd (uploadScreenshots shots report concurrency (Inr headers) environment sched) = p"
    by (simp add: uploadScreenshots_pool [OF assms(1)] Let_def b_def p_def)
  have ok: "pool_ok b p" unfolding p_def by (rule pool_ok_run)
  have c1: "length (workers p) = nat (min concurrency (int (length shots)))"
    by (simp add: p_def length_workers_run start_pool_closed_form n)
  have c4: "queue p = [length shots - length (queue p)..<length shots]"
    using pool_okD(2) [OF ok] by (simp add: n)
  have c5: "\<forall>w<length (workers p). \<forall>w'<length (workers p). \<forall>i.
          running_index (workers p ! w) = Some i \<and> running_index (workers p ! w') = Some i
          \<longrightarrow> w = w'"
  proof (intro allI impI)
    fix w w' i
    assume w: "w < length (workers p)" and w': "w' < length (workers p)"
      and r: "running_index (workers p ! w) = Some i \<and> running_index (workers p ! w') = Some i"
    obtain es r1 where a: "workers p ! w = Running i es r1"
      using r by (cases "workers p ! w") simp_all
    obtain es' r2 where a': "workers p ! w' = Running i es' r2"
      using r by (cases "workers p ! w'") simp_all
    show "w = w'" using pool_okD(4) [OF ok w' w a' a] .
  qed
  show ?thesis unfolding Let_def pool using c1 c4 c5 by blast
qed

lemma unstarted_pool:
  assumes "isl auth \<or> isl (sizes_of shots)"
  shows "workers (snd (uploadScreenshots shots report concurrency auth environment sched)) = []"
    and "queue (snd (uploadScreenshots shots report concurrency auth environment sched)) = []"
    and "network (snd (uploadScreenshots shots report concurrency auth environment sched)) = []"
    and "\<exists>e. fst (uploadScreenshots shots report concurrency auth environment sched) = Rejected e"
  using assms
  by (cases auth; cases "sizes_of shots"; simp add: uploadScreenshots_def idle_pool_def)+

text \<open>
  C9, as the code has it. When the credential is available and every input decodes, the
  pool of \<open>N\<close> screenshots at concurrency \<open>k\<close> has exactly \<open>min k N\<close> workers for \<open>k \<ge> 0\<close> and none
  for \<open>k < 0\<close>; when the credential is missing or an input does not decode, the call is
  rejected before any worker is spawned and before any request. In every case, at every
  moment of every schedule: each worker holds at most one index, no two workers hold the
  same index, the queue is what is left of \<open>0, \<dots>, N - 1\<close> in order, so at most \<open>min k N\<close>
  uploads are in flight (none when that is negative) and at most that many create-session
  requests are outstanding.
\<close>

theorem workers_bounded:
  "let outcome = uploadScreenshots shots report concurrency auth environment sched;
       p = snd outcome; n = length shots in
     (\<not> isl auth \<and> \<not> isl (sizes_of shots) \<and> 0 \<le> concurrency
        \<longrightarrow> int (length (workers p)) = min concurrency (int n))
     \<and> (\<not> isl auth \<and> \<not> isl (sizes_of shots) \<and> concurrency < 0 \<longrightarrow> workers p = [])
     \<and> (isl auth \<or> isl (sizes_of shots)
        \<longrightarrow> workers p = [] \<and> network p = [] \<and> (\<exists>e. fst outcome = Rejected e))
     \<and> int (length (filter is_running (workers p))) \<le> max 0 (min concurrency (int n))
     \<and> length (filter awaits_create (workers p)) \<le> length (filter is_running (workers p))
     \<and> queue p = [n - length (queue p)..<n]
     \<and> (\<forall>w<length (workers p). \<forall>w'<length (workers p). \<forall>i.
          running_index (workers p ! w) = Some i \<and> running_index (workers p ! w') = Some i
          \<longrightarrow> w = w')"
proof -
  define p where "p = snd (uploadScreenshots shots report concurrency auth environment sched)"
  have len: "length (workers p) =
      (if isl auth \<or> isl (sizes_of shots) then 0 else nat (min concurrency (int (length shots))))"
    and c6: "queue p = [length shots - length (queue p)..<length shots]"
    and c7: "\<forall>w<length (workers p). \<forall>w'<length (workers p). \<forall>i.
          running_index (workers p ! w) = Some i \<and> running_index (workers p ! w') = Some i
          \<longrightarrow> w = w'"
  proof -
    show "length (workers p) =
      (if isl auth \<or> isl (sizes_of shots) then 0 else nat (min concurrency (int (length shots))))"
    proof (cases "isl auth \<or> isl (sizes_of shots)")
      case True
      then show ?thesis using unstarted_pool(1) [OF True] by (simp add: p_def)
    next
      case False
      then obtain headers sz where a: "auth = Inr headers" and s: "sizes_of shots = Inr sz"
        by (cases auth; cases "sizes_of shots") simp_all
      show ?thesis
        using started_pool_workers [OF s, of report concurrency headers environment sched]
        by (simp add: Let_def p_def a s)
    qed
    show "queue p = [length shots - length (queue p)..<length shots]"
    proof (cases "isl auth \<or> isl (sizes_of shots)")
      case True
      then show ?thesis using unstarted_pool(2) [OF True] by (simp add: p_def)
    next
      case False
      then obtain headers sz where a: "auth = Inr headers" and s: "sizes_of shots = Inr sz"
        by (cases auth; cases "sizes_of shots") simp_all
      show ?thesis
        using started_pool_workers [OF s, of report concurrency headers environment sched]
        unfolding Let_def p_def a by blast
    qed
    show "\<forall>w<length (workers p). \<forall>w'<length (workers p). \<forall>i.
          running_index (workers p ! w) = Some i \<and> running_index (workers p ! w') = Some i
          \<longrightarrow> w = w'"
    proof (cases "isl auth \<or> isl (sizes_of shots)")
      case True
      then show ?thesis using unstarted_pool(1) [OF True] by (simp add: p_def)
    next
      case False
      then obtain headers sz where a: "auth = Inr headers" and s: "sizes_of shots = Inr sz"
        by (cases auth; cases "sizes_of shots") simp_all
      show ?thesis
        using started_pool_workers [OF s, of report concurrency headers environment sched]
        unfolding Let_def p_def a by blast
    qed
  qed
  have c1: "\<not> isl auth \<and> \<not> isl (sizes_of shots) \<and> 0 \<le> concurrency
        \<longrightarrow> int (length (workers p)) = min concurrency (int (length shots))"
    using len by simp
  have c2: "\<not> isl auth \<and> \<not> isl (sizes_of shots) \<and> concurrency < 0 \<longrightarrow> workers p = []"
  proof
    assume "\<not> isl auth \<and> \<not> isl (sizes_of shots) \<and> concurrency < 0"
    with len have "length (workers p) = 0" by simp
    then show "workers p = []" by simp
  qed
  have c3: "isl auth \<or> isl (sizes_of shots)
        \<longrightarrow> workers p = [] \<and> network p = []
          \<and> (\<exists>e. fst (uploadScreenshots shots report concurrency auth environment sched)
                 = Rejected e)"
    using unstarted_pool [of auth shots report concurrency environment sched]
    by (simp add: p_def)
  have "length (filter is_running (workers p)) \<le> length (workers p)" by simp
  with len have c4: "int (length (filter is_running (workers p)))
      \<le> max 0 (min concurrency (int (length shots)))"
    by (simp split: if_splits)
  have c5: "length (filter awaits_create (workers p)) \<le> length (filter is_running (workers p))"
    by (rule length_filter_mono) (rule awaits_create_running)
  show ?thesis
    unfolding Let_def p_def [symmetric] using c1 c2 c3 c4 c5 c6 c7 by blast
qed

theorem workers_bounded_witness:
  "length (workers (snd (uploadScreenshots
         [''data:image/png;base64,AAAA'', ''data:image/png;base64,AAAA''] True 4 (Inr ''t'')
         accepting_environment [0, 1, 0]))) = 2
   \<and> workers (snd (uploadScreenshots
         [''data:image/png;base64,AAAA'', ''data:image/png;base64,AAAA''] True (- 3) (Inr ''t'')
         accepting_environment [0, 1, 0])) = []
   \<and> workers (snd (uploadScreenshots
         [''data:image/png;base64,AAAA'', ''nocomma''] True 4 (Inr ''t'')
         accepting_environment [0, 1, 0])) = []"
proof -
  let ?shots = "[''data:image/png;base64,AAAA'', ''data:image/png;base64,AAAA'']"
  let ?bad = "[''data:image/png;base64,AAAA'', ''nocomma'']"
  have s: "sizes_of ?shots = Inr [3, 3]"
    by code_simp
  have t: "sizes_of ?bad = Inl InvalidCharacterError"
    by code_simp
  have a: "length (workers (snd (uploadScreenshots ?shots True 4 (Inr ''t'')
      accepting_environment [0, 1, 0]))) = 2"
    using workers_bounded [of ?shots True 4 "Inr ''t''" accepting_environment "[0, 1, 0]",
        unfolded Let_def s]
    by simp
  have b: "workers (snd (uploadScreenshots ?shots True (- 3) (Inr ''t'')
      accepting_environment [0, 1, 0])) = []"
    using workers_bounded [of ?shots True "- 3" "Inr ''t''" accepting_environment "[0, 1, 0]",
        unfolded Let_def s]
    by simp
  have c: "workers (snd (uploadScreenshots ?bad True 4 (Inr ''t'')
      accepting_environment [0, 1, 0])) = []"
    using workers_bounded [of ?bad True 4 "Inr ''t''" accepting_environment "[0, 1, 0]",
        unfolded Let_def t]
    by simp
  show ?thesis using a b c by blast
qed

text \<open>An input that does not decode: the call is rejected while the sizes are computed, and
  no worker is spawned although \<open>min k N = 2\<close>. The same holds without a credential.\<close>

theorem undecodable_input_counterexample:
  "uploadScreenshots [''data:image/png;base64,AAAA'', ''nocomma''] True 4 (Inr ''t'')
      accepting_environment []
     = (Rejected InvalidCharacterError, idle_pool\<lparr>results := [None, None]\<rparr>)
   \<and> length (workers (idle_pool\<lparr>results := [None, None]\<rparr>)) = 0
   \<and> min 4 (int (length [''data:image/png;base64,AAAA'', ''nocomma''])) = 2
   \<and> uploadScreenshots [''data:image/png;base64,AAAA'', ''data:image/png;base64,AAAA''] True 4
        (Inl (Error ''You must be signed in to upload captures'')) accepting_environment []
     = (Rejected (Error ''You must be signed in to upload captures''), idle_pool)
   \<and> length (workers idle_pool) = 0"
proof -
  have t: "sizes_of [''data:image/png;base64,AAAA'', ''nocomma''] = Inl InvalidCharacterError"
    by code_simp
  show ?thesis
    unfolding uploadScreenshots_def t by (simp add: idle_pool_def)
qed

section \<open>The byte map and the progress reports\<close>

lemma map_of_map_set: "map_of (map_set k v m) = (map_of m)(k \<mapsto> v)"
  by (induction m) (auto simp: fun_eq_iff)

lemma keys_map_set:
  "map fst (map_set k v m) = (if k \<in> set (map fst m) then map fst m else map fst m @ [k])"
  by (induction m) (auto simp: rev_image_eqI)

lemma distinct_keys_map_set:
  "distinct (map fst m) \<Longrightarrow> distinct (map fst (map_set k v m))"
  by (simp add: keys_map_set)

lemma sum_map_set:
  "sum_list (map snd (map_set k v m)) =
     sum_list (map snd m) + v - (case map_of m k of None \<Rightarrow> 0 | Some old \<Rightarrow> old)"
  by (induction m) auto

lemma length_map_set:
  "length (map_set k v m) = (if k \<in> set (map fst m) then length m else Suc (length m))"
  by (induction m) (auto simp: rev_image_eqI)

lemma map_of_None_keys: "(map_of m k = None) = (k \<notin> set (map fst m))"
  by (simp add: map_of_eq_None_iff)

lemma sizes_of_nth:
  "sizes_of shots = Inr sz \<Longrightarrow>
     length sz = length shots \<and>
     (\<forall>i<length shots. \<exists>blob. dataUrlToBlob (shots ! i) = Inr blob \<and> sz ! i = blob_size blob)"
proof (induction shots arbitrary: sz)
  case Nil
  then show ?case by simp
next
  case (Cons d shots)
  from Cons.prems obtain blob rest where
    d: "dataUrlToBlob d = Inr blob" and r: "sizes_of shots = Inr rest"
    and sz: "sz = blob_size blob # rest"
    by (auto split: sum.splits)
  have ih: "length rest = length shots \<and>
     (\<forall>i<length shots. \<exists>blob. dataUrlToBlob (shots ! i) = Inr blob \<and> rest ! i = blob_size blob)"
    using Cons.IH [OF r] .
  show ?case
  proof (intro conjI allI impI)
    show "length sz = length (d # shots)" using ih sz by simp
  next
    fix i assume "i < length (d # shots)"
    then show "\<exists>blob. dataUrlToBlob ((d # shots) ! i) = Inr blob \<and> sz ! i = blob_size blob"
      using ih d sz by (cases i) simp_all
  qed
qed

lemma batch_ok_sizes:
  assumes "batch_ok b"
  shows "length (sizePerScreenshot b) = length (screenshots b)"
    and "i < length (screenshots b) \<Longrightarrow>
           \<exists>blob. dataUrlToBlob (screenshots b ! i) = Inr blob
                  \<and> sizePerScreenshot b ! i = blob_size blob"
    and "i < length (screenshots b) \<Longrightarrow> 0 \<le> sizePerScreenshot b ! i"
proof -
  note s = sizes_of_nth [OF assms [unfolded batch_ok_def]]
  show "length (sizePerScreenshot b) = length (screenshots b)" using s by simp
  show "\<exists>blob. dataUrlToBlob (screenshots b ! i) = Inr blob
                  \<and> sizePerScreenshot b ! i = blob_size blob"
    if "i < length (screenshots b)" using s that by simp
  then show "0 \<le> sizePerScreenshot b ! i" if "i < length (screenshots b)"
    using that by (auto simp: blob_size_def)
qed

text \<open>The progress values of one upload: the estimate after parts \<open>1, \<dots>, j\<close>.\<close>

lemma uploadScreenshot_progress:
  assumes "dataUrlToBlob dataUrl = Inr blob" and "create_response script = CreateOk sess"
  shows "\<exists>j. 0 \<le> j \<and> j \<le> max (totalParts sess) 0
      \<and> progress_values (fst (uploadScreenshot dataUrl fname h True script))
          = map (\<lambda>p. min (p * partSize sess) (blob_size blob)) [1..j]
      \<and> (\<not> isl (snd (uploadScreenshot dataUrl fname h True script))
           \<longrightarrow> j = max (totalParts sess) 0)"
proof -
  obtain evs r where up: "upload_parts h blob sess (part_response script) True 1 [] = (evs, r)"
    by (cases "upload_parts h blob sess (part_response script) True 1 []")
  obtain j where j: "0 \<le> j" "j \<le> max (totalParts sess) 0"
      "progress_values evs = map (\<lambda>p. min (p * partSize sess) (blob_size blob)) [1..j]"
      "\<not> isl r \<longrightarrow> j = max (totalParts sess) 0"
    using upload_parts_progress [of 1 sess h blob "part_response script" "[]"] up by auto
  show ?thesis
  proof (cases r)
    case (Inl e)
    show ?thesis
      using j by (intro exI [of _ j])
        (simp add: uploadScreenshot_parts_failed [OF assms up [unfolded Inl]])
  next
    case (Inr cp)
    have pv: "progress_values (fst (uploadScreenshot dataUrl fname h True script))
        = progress_values evs"
      unfolding uploadScreenshot_parts_done [OF assms up [unfolded Inr]]
      by (cases "complete_response script"; cases "abort_response script")
         (simp_all add: progress_values_append)
    show ?thesis
      using j Inr by (intro exI [of _ j]) (simp add: pv)
  qed
qed

lemma uploadScreenshot_progress_bound:
  assumes "dataUrlToBlob dataUrl = Inr blob"
    and "u \<in> set (progress_values (fst (uploadScreenshot dataUrl fname h True script)))"
  shows "u \<le> blob_size blob"
proof (cases "\<exists>sess. create_response script = CreateOk sess")
  case False
  then show ?thesis
    using uploadScreenshot_not_created [of script dataUrl fname h True] assms(2) by simp
next
  case True
  then obtain sess where c: "create_response script = CreateOk sess" by blast
  from uploadScreenshot_progress [OF assms(1) c, of fname h] assms(2) show ?thesis by auto
qed

lemma file_run_progress_bound:
  assumes "batch_ok b" and "i < length (screenshots b)"
    and "u \<in> set (progress_values (fst (file_run b i)))"
  shows "u \<le> sizePerScreenshot b ! i"
proof -
  obtain blob where "dataUrlToBlob (screenshots b ! i) = Inr blob"
    "sizePerScreenshot b ! i = blob_size blob"
    using batch_ok_sizes(2) [OF assms(1,2)] by blast
  then show ?thesis
    using uploadScreenshot_progress_bound [of "screenshots b ! i" blob u] assms(3)
    by (simp add: file_run_def)
qed

lemma sum_bytes_bound:
  assumes "distinct (map fst m)"
    and "\<And>i v. map_of m i = Some v \<Longrightarrow> i < length sz \<and> v \<le> sz ! i"
    and "\<And>i. i < length sz \<Longrightarrow> (0::int) \<le> sz ! i"
  shows "sum_list (map snd m) \<le> sum_list sz"
proof -
  have kv: "map_of m k = Some v" if "(k, v) \<in> set m" for k v
    using that assms(1) by simp
  have "sum_list (map snd m) \<le> sum_list (map (\<lambda>kv. sz ! fst kv) m)"
    by (rule sum_list_mono) (use kv assms(2) in force)
  also have "\<dots> = sum_list (map (\<lambda>k. sz ! k) (map fst m))"
    by (simp add: comp_def)
  also have "\<dots> = sum (\<lambda>k. sz ! k) (set (map fst m))"
    using assms(1) by (rule sum_list_distinct_conv_sum_set)
  also have "\<dots> \<le> sum (\<lambda>k. sz ! k) {..<length sz}"
  proof (rule sum_mono2)
    show "set (map fst m) \<subseteq> {..<length sz}"
    proof
      fix k assume "k \<in> set (map fst m)"
      then obtain v where "(k, v) \<in> set m" by auto
      from assms(2) [OF kv [OF this]] show "k \<in> {..<length sz}" by simp
    qed
  qed (use assms(3) in auto)
  also have "\<dots> = sum_list sz"
    by (simp add: sum_list_sum_nth atLeast0LessThan)
  finally show ?thesis .
qed

lemma bytes_entries_map_set:
  assumes "\<forall>i v. map_of m i = Some v \<longrightarrow> i < q \<and> v \<le> sz ! i"
    and "k < q'" and "q \<le> q'" and "x \<le> sz ! k"
  shows "\<forall>i v. map_of (map_set k x m) i = Some v \<longrightarrow> i < q' \<and> v \<le> (sz ! i :: int)"
proof (intro allI impI)
  fix i v
  assume a: "map_of (map_set k x m) i = Some v"
  show "i < q' \<and> v \<le> sz ! i"
  proof (cases "i = k")
    case True
    with a assms(2,4) show ?thesis by (simp add: map_of_map_set)
  next
    case False
    with a have "map_of m i = Some v" by (simp add: map_of_map_set)
    with assms(1) have "i < q \<and> v \<le> sz ! i" by blast
    with assms(3) show ?thesis by simp
  qed
qed

lemma bytes_okD:
  assumes "bytes_ok b p"
  shows "distinct (map fst (bytesPerScreenshot p))"
    and "\<forall>i v. map_of (bytesPerScreenshot p) i = Some v \<longrightarrow>
           i < length (screenshots b) - length (queue p) \<and> v \<le> sizePerScreenshot b ! i"
    and "\<forall>pr\<in>set (progress_calls p).
         uploadedBytes pr \<le> totalBytes pr \<and> totalBytes pr = sum_list (sizePerScreenshot b) \<and>
         percent pr = js_percent (uploadedBytes pr) (totalBytes pr) \<and>
         totalFiles pr = length (screenshots b)"
  using assms unfolding bytes_ok_def by blast+

lemma bytes_okI:
  assumes "distinct (map fst (bytesPerScreenshot p))"
    and "\<forall>i v. map_of (bytesPerScreenshot p) i = Some v \<longrightarrow>
           i < length (screenshots b) - length (queue p) \<and> v \<le> sizePerScreenshot b ! i"
    and "\<forall>pr\<in>set (progress_calls p).
         uploadedBytes pr \<le> totalBytes pr \<and> totalBytes pr = sum_list (sizePerScreenshot b) \<and>
         percent pr = js_percent (uploadedBytes pr) (totalBytes pr) \<and>
         totalFiles pr = length (screenshots b)"
  shows "bytes_ok b p"
  unfolding bytes_ok_def using assms by blast

lemma running_progress_value:
  assumes "pool_ok b p" and "w < length (workers p)"
    and "workers p ! w = Running index es r" and "u \<in> set (progress_values es)"
  shows "index < length (screenshots b) - length (queue p)"
    and "u \<in> set (progress_values (fst (file_run b index)))"
proof -
  from pool_okD(3) [OF assms(1,2,3)] obtain pre where
    i: "index < length (screenshots b) - length (queue p)"
    and pre: "fst (file_run b index) = pre @ es" by blast
  show "index < length (screenshots b) - length (queue p)" by (rule i)
  show "u \<in> set (progress_values (fst (file_run b index)))"
    using assms(4) by (simp add: pre progress_values_append)
qed

lemma bytes_ok_start: "bytes_ok b (start_pool b concurrency)"
  by (simp add: bytes_ok_def start_pool_closed_form idle_pool_def)

lemma bytes_ok_step:
  assumes b: "batch_ok b" and ok: "pool_ok b p" and bts: "bytes_ok b p"
  shows "bytes_ok b (step b w p)"
proof -
  define n where "n = length (screenshots b)"
  define q where "q = n - length (queue p)"
  define sz where "sz = sizePerScreenshot b"
  note d = bytes_okD [OF bts, folded n_def, folded q_def sz_def]
  have len: "length sz = n" using batch_ok_sizes(1) [OF b] by (simp add: sz_def n_def)
  have pos: "0 \<le> sz ! i" if "i < length sz" for i
    using batch_ok_sizes(3) [OF b, of i] that len by (simp add: sz_def n_def)
  have qn: "q \<le> n" by (simp add: q_def)
  show ?thesis
  proof (cases b w p rule: step_cases)
    case idle
    with bts show ?thesis by simp
  next
    case (event index e es r)
    with bts show ?thesis by (auto simp: bytes_ok_def)
  next
    case (throw index e)
    with bts show ?thesis by (auto simp: bytes_ok_def)
  next
    case (progress index u t es r)
    define m' where "m' = map_set index u (bytesPerScreenshot p)"
    have iq: "index < q"
      using running_progress_value(1) [OF ok progress(1,2), of u] by (simp add: q_def n_def)
    have "u \<in> set (progress_values (fst (file_run b index)))"
      using running_progress_value(2) [OF ok progress(1,2), of u] by simp
    then have ub: "u \<le> sz ! index"
      using file_run_progress_bound [OF b, of index u] iq qn by (simp add: sz_def n_def)
    have dist: "distinct (map fst m')"
      unfolding m'_def using d(1) by (rule distinct_keys_map_set)
    have ent: "\<forall>i v. map_of m' i = Some v \<longrightarrow> i < q \<and> v \<le> sz ! i"
      unfolding m'_def using d(2) iq _ ub by (rule bytes_entries_map_set) simp
    have ent2: "i < length sz \<and> v \<le> sz ! i" if "map_of m' i = Some v" for i v
    proof -
      from ent that have "i < q \<and> v \<le> sz ! i" by blast
      with qn len show ?thesis by simp
    qed
    have "sum_list (map snd m') \<le> sum_list sz"
      using dist ent2 pos by (rule sum_bytes_bound)
    then have fp: "\<forall>pr\<in>set (progress_calls (file_progress b index u p)).
         uploadedBytes pr \<le> totalBytes pr \<and> totalBytes pr = sum_list sz \<and>
         percent pr = js_percent (uploadedBytes pr) (totalBytes pr) \<and> totalFiles pr = n"
      using d(3) by (auto simp: file_progress_def Let_def m'_def sz_def n_def)
    have pc: "progress_calls (step b w p) = progress_calls (file_progress b index u p)"
      by (simp add: progress(3))
    have calls: "\<forall>pr\<in>set (progress_calls (step b w p)).
         uploadedBytes pr \<le> totalBytes pr \<and> totalBytes pr = sum_list (sizePerScreenshot b) \<and>
         percent pr = js_percent (uploadedBytes pr) (totalBytes pr) \<and>
         totalFiles pr = length (screenshots b)"
      unfolding pc by (rule fp [unfolded sz_def n_def])
    have m: "bytesPerScreenshot (step b w p) = m'" "queue (step b w p) = queue p"
      by (simp_all add: progress(3) file_progress_fields m'_def)
    show ?thesis
    proof (rule bytes_okI)
      show "distinct (map fst (bytesPerScreenshot (step b w p)))"
        unfolding m using dist .
      show "\<forall>i v. map_of (bytesPerScreenshot (step b w p)) i = Some v \<longrightarrow>
           i < length (screenshots b) - length (queue (step b w p)) \<and> v \<le> sizePerScreenshot b ! i"
        unfolding m using ent unfolding q_def n_def sz_def .
    qed (rule calls)
  next
    case (finish_last index k)
    define m' where "m' = map_set index (sz ! index) (bytesPerScreenshot p)"
    have iq: "index < q"
      using pool_okD(3) [OF ok finish_last(1,2)] by (simp add: q_def n_def)
    have dist: "distinct (map fst m')"
      unfolding m'_def using d(1) by (rule distinct_keys_map_set)
    have ent: "\<forall>i v. map_of m' i = Some v \<longrightarrow> i < q \<and> v \<le> sz ! i"
      unfolding m'_def using d(2) iq by (rule bytes_entries_map_set) simp_all
    have m: "bytesPerScreenshot (step b w p) = m'" "queue (step b w p) = queue p"
      "progress_calls (step b w p) = progress_calls p"
      by (simp_all add: finish_last(4) m'_def sz_def)
    show ?thesis
    proof (rule bytes_okI)
      show "distinct (map fst (bytesPerScreenshot (step b w p)))"
        unfolding m using dist .
      show "\<forall>i v. map_of (bytesPerScreenshot (step b w p)) i = Some v \<longrightarrow>
           i < length (screenshots b) - length (queue (step b w p)) \<and> v \<le> sizePerScreenshot b ! i"
        unfolding m using ent unfolding q_def n_def sz_def .
    qed (unfold m, rule bytes_okD(3) [OF bts])
  next
    case (finish_next index k j rest)
    define m' where "m' = map_set index (sz ! index) (bytesPerScreenshot p)"
    define q' where "q' = n - length rest"
    have qq: "q \<le> q'" using finish_next(3) by (simp add: q_def q'_def)
    have iq: "index < q"
      using pool_okD(3) [OF ok finish_next(1,2)] by (simp add: q_def n_def)
    have dist: "distinct (map fst m')"
      unfolding m'_def using d(1) by (rule distinct_keys_map_set)
    have ent: "\<forall>i v. map_of m' i = Some v \<longrightarrow> i < q' \<and> v \<le> sz ! i"
      unfolding m'_def using d(2) _ qq by (rule bytes_entries_map_set) (use iq qq in simp_all)
    have m: "bytesPerScreenshot (step b w p) = m'" "queue (step b w p) = rest"
      "progress_calls (step b w p) = progress_calls p"
      by (simp_all add: finish_next(4) m'_def sz_def)
    show ?thesis
    proof (rule bytes_okI)
      show "distinct (map fst (bytesPerScreenshot (step b w p)))"
        unfolding m using dist .
      show "\<forall>i v. map_of (bytesPerScreenshot (step b w p)) i = Some v \<longrightarrow>
           i < length (screenshots b) - length (queue (step b w p)) \<and> v \<le> sizePerScreenshot b ! i"
        unfolding m using ent unfolding q'_def n_def sz_def .
    qed (unfold m, rule bytes_okD(3) [OF bts])
  qed
qed

lemma pool_bytes_ok_run:
  assumes "batch_ok b"
  shows "pool_ok b (run b sched (start_pool b concurrency))
       \<and> bytes_ok b (run b sched (start_pool b concurrency))"
  by (rule run_invariant [where I = "\<lambda>p. pool_ok b p \<and> bytes_ok b p"])
     (simp_all add: pool_ok_start bytes_ok_start pool_ok_step bytes_ok_step [OF assms])

lemma js_percent_le_100:
  assumes "u \<le> t" and "0 < t"
  shows "js_le (js_percent u t) (Num 100)"
proof -
  have "200 * u + t \<le> 100 * (2 * t) + t" using assms by simp
  then have "(200 * u + t) div (2 * t) \<le> (100 * (2 * t) + t) div (2 * t)"
    by (rule zdiv_mono1) (use assms in simp)
  also have "\<dots> = 100" using assms by simp
  finally show ?thesis using assms by (simp add: js_percent_def)
qed

text \<open>
  C10. Every progress report that \<^verbatim>\<open>uploadScreenshots\<close> emits, under every schedule and
  whatever the environment answers, has \<open>uploadedBytes \<le> totalBytes\<close>, and a percentage of
  at most 100 when the total size is positive: the byte count kept for an index never
  exceeds the decoded size of its screenshot, each index is counted once, and the sizes are
  not negative. (The percentage is computed exactly; the rounding of \<^verbatim>\<open>Math.round\<close> is to the
  nearest integer, halves upwards.)
\<close>

theorem progress_bounded:
  "\<forall>pr\<in>set (progress_calls
       (snd (uploadScreenshots shots report concurrency auth environment sched))).
     uploadedBytes pr \<le> totalBytes pr
     \<and> (0 < totalBytes pr \<longrightarrow> js_le (percent pr) (Num 100))"
proof (cases auth)
  case (Inl e)
  then show ?thesis by (simp add: uploadScreenshots_def idle_pool_def)
next
  case (Inr headers)
  show ?thesis
  proof (cases "sizes_of shots")
    case (Inl e)
    with Inr show ?thesis by (simp add: uploadScreenshots_def idle_pool_def)
  next
    case sz: (Inr sz)
    define b where "b = \<lparr>screenshots = shots, onProgress = report, authHeaders = headers,
               sizePerScreenshot = sz, env = environment\<rparr>"
    define p where "p = run b sched (start_pool b concurrency)"
    have pool: "snd (uploadScreenshots shots report concurrency auth environment sched) = p"
      by (simp add: Inr uploadScreenshots_pool [OF sz] Let_def b_def p_def)
    have "batch_ok b" by (simp add: batch_ok_def b_def sz)
    then have "bytes_ok b p" unfolding p_def using pool_bytes_ok_run by blast
    then have "\<forall>pr\<in>set (progress_calls p).
         uploadedBytes pr \<le> totalBytes pr \<and>
         percent pr = js_percent (uploadedBytes pr) (totalBytes pr)"
      using bytes_okD(3) by blast
    then show ?thesis unfolding pool using js_percent_le_100 by metis
  qed
qed

theorem progress_bounded_witness:
  "\<lparr>uploadedBytes = 2, totalBytes = 3, percent = Num 67, currentFile = 1, totalFiles = 1\<rparr>
     \<in> set (progress_calls (snd (uploadScreenshots [''data:image/png;base64,AAAA''] True 1
          (Inr ''t'') accepting_environment [0, 0, 0, 0])))
   \<and> uploadedBytes \<lparr>uploadedBytes = 2, totalBytes = 3, percent = Num 67, currentFile = 1,
         totalFiles = 1\<rparr>
       \<le> totalBytes \<lparr>uploadedBytes = 2, totalBytes = 3, percent = Num 67, currentFile = 1,
         totalFiles = 1\<rparr>
   \<and> js_le (percent \<lparr>uploadedBytes = 2, totalBytes = 3, percent = Num 67, currentFile = 1,
         totalFiles = 1\<rparr>) (Num 100)"
proof -
  have calls: "progress_calls (snd (uploadScreenshots [''data:image/png;base64,AAAA''] True 1
          (Inr ''t'') accepting_environment [0, 0, 0, 0]))
     = [\<lparr>uploadedBytes = 2, totalBytes = 3, percent = Num 67, currentFile = 1, totalFiles = 1\<rparr>]"
    by code_simp
  show ?thesis
    using progress_bounded [of "[''data:image/png;base64,AAAA'']" True 1 "Inr ''t''"
        accepting_environment "[0, 0, 0, 0]"]
    unfolding calls by simp
qed

section \<open>Results and rejection\<close>

lemma mem_update_old: "y \<in> set (ws[w := x]) \<Longrightarrow> y = x \<or> y \<in> set ws"
  using set_update_subset_insert [of ws w x] by auto

lemma mem_update_keep:
  assumes "y \<in> set ws" and "ws ! w \<noteq> y"
  shows "y \<in> set (ws[w := x])"
proof -
  from assms(1) obtain j where j: "j < length ws" "ws ! j = y"
    by (auto simp: in_set_conv_nth)
  with assms(2) have "j \<noteq> w" by auto
  with j have "(ws[w := x]) ! j = y" "j < length (ws[w := x])" by simp_all
  then show ?thesis by (metis nth_mem)
qed

lemma held_update_same:
  assumes "w < length (workers p)" and "workers p' = (workers p)[w := Running i es r]"
  shows "held p' i"
  unfolding held_def using assms by (intro exI [of _ w]) simp

lemma held_update_other:
  assumes "held p i" and "workers p' = (workers p)[w := x]"
    and "\<And>es r. workers p ! w \<noteq> Running i es r"
  shows "held p' i"
proof -
  from assms(1) obtain w' es r where w': "w' < length (workers p)"
    "workers p ! w' = Running i es r" unfolding held_def by blast
  with assms(3) have "w' \<noteq> w" by auto
  with w' assms(2) have "w' < length (workers p')" "workers p' ! w' = Running i es r"
    by simp_all
  then show ?thesis unfolding held_def by blast
qed

lemma results_okI:
  assumes "\<And>i x. i < length (screenshots b) \<Longrightarrow> results p ! i = Some x \<Longrightarrow>
         snd (file_run b i) = Inr (result_key x) \<and> filename x = page_filename i"
    and "\<And>i. i < length (screenshots b) - length (queue p) \<Longrightarrow>
         held p i \<or> results p ! i \<noteq> None \<or> isl (snd (file_run b i))"
    and "Returned \<in> set (workers p) \<Longrightarrow> queue p = []"
    and "\<And>e. Threw e \<in> set (workers p) \<Longrightarrow>
         \<exists>i<length (screenshots b). snd (file_run b i) = Inl e"
    and "\<And>e. rejection p = None \<Longrightarrow> Threw e \<notin> set (workers p)"
    and "\<And>e. rejection p = Some e \<Longrightarrow> Threw e \<in> set (workers p)"
  shows "results_ok b p"
  unfolding results_ok_def using assms by blast

lemma results_okD:
  assumes "results_ok b p"
  shows "\<And>i x. i < length (screenshots b) \<Longrightarrow> results p ! i = Some x \<Longrightarrow>
         snd (file_run b i) = Inr (result_key x) \<and> filename x = page_filename i"
    and "\<And>i. i < length (screenshots b) - length (queue p) \<Longrightarrow>
         held p i \<or> results p ! i \<noteq> None \<or> isl (snd (file_run b i))"
    and "Returned \<in> set (workers p) \<Longrightarrow> queue p = []"
    and "\<And>e. Threw e \<in> set (workers p) \<Longrightarrow>
         \<exists>i<length (screenshots b). snd (file_run b i) = Inl e"
    and "\<And>e. rejection p = None \<Longrightarrow> Threw e \<notin> set (workers p)"
    and "\<And>e. rejection p = Some e \<Longrightarrow> Threw e \<in> set (workers p)"
  using assms unfolding results_ok_def by blast+

lemma results_ok_start: "results_ok b (start_pool b concurrency)"
proof -
  define n where "n = length (screenshots b)"
  define k where "k = nat (min concurrency (int n))"
  have kn: "k \<le> n" by (simp add: k_def)
  have st: "start_pool b concurrency =
     idle_pool\<lparr>queue := [k..<n], results := replicate n None,
       workers := map (\<lambda>j. Running j (fst (file_run b j)) (snd (file_run b j))) [0..<k]\<rparr>"
    by (simp add: start_pool_closed_form n_def k_def)
  show ?thesis
  proof (rule results_okI)
    fix i assume "i < length (screenshots b) - length (queue (start_pool b concurrency))"
    then have "i < k" using kn by (simp add: st n_def)
    then have "held (start_pool b concurrency) i"
      unfolding held_def by (intro exI [of _ i]) (simp add: st)
    then show "held (start_pool b concurrency) i \<or> results (start_pool b concurrency) ! i \<noteq> None
        \<or> isl (snd (file_run b i))" by simp
  qed (auto simp: st idle_pool_def n_def)
qed

lemma results_ok_transfer:
  assumes res: "results_ok b p"
    and same: "results p' = results p" "queue p' = queue p" "rejection p' = rejection p"
    and settled: "\<And>x. \<not> is_running x \<Longrightarrow> (x \<in> set (workers p')) = (x \<in> set (workers p))"
    and held: "\<And>i. held p i \<Longrightarrow> held p' i"
  shows "results_ok b p'"
proof (rule results_okI)
  fix i x assume "i < length (screenshots b)" "results p' ! i = Some x"
  then show "snd (file_run b i) = Inr (result_key x) \<and> filename x = page_filename i"
    using results_okD(1) [OF res, of i x] by (simp add: same)
next
  fix i assume "i < length (screenshots b) - length (queue p')"
  then have "held p i \<or> results p ! i \<noteq> None \<or> isl (snd (file_run b i))"
    using results_okD(2) [OF res, of i] by (simp add: same)
  then show "held p' i \<or> results p' ! i \<noteq> None \<or> isl (snd (file_run b i))"
    using held [of i] by (auto simp: same)
next
  assume "Returned \<in> set (workers p')"
  then have "Returned \<in> set (workers p)" using settled [of Returned] by simp
  then show "queue p' = []" using results_okD(3) [OF res] by (simp add: same)
next
  fix e assume "Threw e \<in> set (workers p')"
  then have "Threw e \<in> set (workers p)" using settled [of "Threw e"] by simp
  then show "\<exists>i<length (screenshots b). snd (file_run b i) = Inl e"
    by (rule results_okD(4) [OF res])
next
  fix e assume "rejection p' = None"
  then have "Threw e \<notin> set (workers p)" using results_okD(5) [OF res, of e] by (simp add: same)
  then show "Threw e \<notin> set (workers p')" using settled [of "Threw e"] by simp
next
  fix e assume "rejection p' = Some e"
  then have "Threw e \<in> set (workers p)" using results_okD(6) [OF res, of e] by (simp add: same)
  then show "Threw e \<in> set (workers p')" using settled [of "Threw e"] by simp
qed

lemma results_ok_step:
  assumes ok: "pool_ok b p" and res: "results_ok b p"
  shows "results_ok b (step b w p)"
proof -
  define n where "n = length (screenshots b)"
  define q where "q = n - length (queue p)"
  note d = results_okD [OF res, folded n_def, folded q_def]
  note o = pool_okD [OF ok, folded n_def, folded q_def]
  have qn: "q \<le> n" by (simp add: q_def)
  show ?thesis
  proof (cases b w p rule: step_cases)
    case idle
    with res show ?thesis by simp
  next
    case (event index e es r)
    have ws: "workers (step b w p) = (workers p)[w := Running index es r]"
      and same: "results (step b w p) = results p" "queue (step b w p) = queue p"
        "rejection (step b w p) = rejection p"
      by (simp_all add: event(4))
    show ?thesis
    proof (rule results_ok_transfer [OF res same])
      fix x :: worker assume x: "\<not> is_running x"
      show "(x \<in> set (workers (step b w p))) = (x \<in> set (workers p))"
      proof
        assume "x \<in> set (workers (step b w p))"
        then show "x \<in> set (workers p)"
          using mem_update_old [of x "workers p" w "Running index es r"] x by (auto simp: ws)
      next
        assume "x \<in> set (workers p)"
        then show "x \<in> set (workers (step b w p))"
          unfolding ws by (rule mem_update_keep) (use x event(2) in auto)
      qed
    next
      fix i assume h: "held p i"
      show "held (step b w p) i"
      proof (cases "i = index")
        case True
        show ?thesis unfolding True by (rule held_update_same [OF event(1) ws])
      next
        case False
        show ?thesis by (rule held_update_other [OF h ws]) (use False event(2) in simp)
      qed
    qed
  next
    case (progress index u t es r)
    have ws: "workers (step b w p) = (workers p)[w := Running index es r]"
      and same: "results (step b w p) = results p" "queue (step b w p) = queue p"
        "rejection (step b w p) = rejection p"
      by (simp_all add: progress(3) file_progress_fields)
    show ?thesis
    proof (rule results_ok_transfer [OF res same])
      fix x :: worker assume x: "\<not> is_running x"
      show "(x \<in> set (workers (step b w p))) = (x \<in> set (workers p))"
      proof
        assume "x \<in> set (workers (step b w p))"
        then show "x \<in> set (workers p)"
          using mem_update_old [of x "workers p" w "Running index es r"] x by (auto simp: ws)
      next
        assume "x \<in> set (workers p)"
        then show "x \<in> set (workers (step b w p))"
          unfolding ws by (rule mem_update_keep) (use x progress(2) in auto)
      qed
    next
      fix i assume h: "held p i"
      show "held (step b w p) i"
      proof (cases "i = index")
        case True
        show ?thesis unfolding True by (rule held_update_same [OF progress(1) ws])
      next
        case False
        show ?thesis by (rule held_update_other [OF h ws]) (use False progress(2) in simp)
      qed
    qed
  next
    case (throw index e)
    have ws: "workers (step b w p) = (workers p)[w := Threw e]"
      and same: "results (step b w p) = results p" "queue (step b w p) = queue p"
      and rej: "rejection (step b w p)
          = (case rejection p of None \<Rightarrow> Some e | Some first \<Rightarrow> Some first)"
      by (simp_all add: throw(3))
    have run: "index < q" "snd (file_run b index) = Inl e"
      using o(3) [OF throw(1,2)] by simp_all
    have new: "Threw e \<in> set (workers (step b w p))"
      unfolding ws using throw(1) by (simp add: set_update_memI)
    have keep: "x \<in> set (workers (step b w p))" if "x \<in> set (workers p)" "\<not> is_running x" for x
      unfolding ws by (rule mem_update_keep) (use that throw(2) in auto)
    show ?thesis
    proof (rule results_okI)
      fix i assume "i < length (screenshots b) - length (queue (step b w p))"
      then have "held p i \<or> results p ! i \<noteq> None \<or> isl (snd (file_run b i))"
        using d(2) [of i] by (simp add: same q_def n_def)
      moreover have "held (step b w p) i" if "held p i" "i \<noteq> index"
        by (rule held_update_other [OF that(1) ws]) (use that(2) throw(2) in simp)
      ultimately show "held (step b w p) i \<or> results (step b w p) ! i \<noteq> None
          \<or> isl (snd (file_run b i))" using run(2) by (cases "i = index") (auto simp: same)
    next
      assume "Returned \<in> set (workers (step b w p))"
      then have "Returned \<in> set (workers p)"
        using mem_update_old [of Returned "workers p" w "Threw e"] by (simp add: ws)
      then show "queue (step b w p) = []" using d(3) by (simp add: same)
    next
      fix e' assume "Threw e' \<in> set (workers (step b w p))"
      then have "e' = e \<or> Threw e' \<in> set (workers p)"
        using mem_update_old [of "Threw e'" "workers p" w "Threw e"] by (simp add: ws)
      moreover have "index < length (screenshots b) \<and> snd (file_run b index) = Inl e"
        using run qn by (simp add: n_def)
      then have "\<exists>i<length (screenshots b). snd (file_run b i) = Inl e" by blast
      ultimately show "\<exists>i<length (screenshots b). snd (file_run b i) = Inl e'"
        using d(4) [of e'] by (auto simp: n_def)
    next
      fix e' assume "rejection (step b w p) = None"
      then show "Threw e' \<notin> set (workers (step b w p))"
        by (simp add: rej split: option.splits)
    next
      fix e' assume a: "rejection (step b w p) = Some e'"
      show "Threw e' \<in> set (workers (step b w p))"
      proof (cases "rejection p")
        case None
        with a have "e' = e" by (simp add: rej)
        with new show ?thesis by simp
      next
        case (Some first)
        with a have "e' = first" by (simp add: rej)
        with Some d(6) [of first] keep [of "Threw first"] show ?thesis by simp
      qed
    qed (use d in \<open>auto simp: same n_def\<close>)
  next
    case (finish_last index k)
    have ws: "workers (step b w p) = (workers p)[w := Returned]"
      and rs: "results (step b w p) = (results p)
                 [index := Some \<lparr>result_key = k, filename = page_filename index\<rparr>]"
      and same: "queue (step b w p) = queue p" "rejection (step b w p) = rejection p"
      by (simp_all add: finish_last(4))
    have run: "index < q" "snd (file_run b index) = Inr k"
      using o(3) [OF finish_last(1,2)] by simp_all
    have ilen: "index < length (results p)" using run(1) qn o(1) by simp
    have mem: "x = Returned \<or> x \<in> set (workers p)" if "x \<in> set (workers (step b w p))" for x
      using mem_update_old [of x "workers p" w Returned] that by (simp add: ws)
    have keep: "x \<in> set (workers (step b w p))" if "x \<in> set (workers p)" "\<not> is_running x" for x
      unfolding ws by (rule mem_update_keep) (use that finish_last(2) in auto)
    show ?thesis
    proof (rule results_okI)
      fix i x assume a: "i < length (screenshots b)" "results (step b w p) ! i = Some x"
      show "snd (file_run b i) = Inr (result_key x) \<and> filename x = page_filename i"
      proof (cases "i = index")
        case True
        with a ilen run show ?thesis by (auto simp: rs)
      next
        case False
        with a d(1) [of i x] show ?thesis by (simp add: rs n_def)
      qed
    next
      fix i assume "i < length (screenshots b) - length (queue (step b w p))"
      then have "held p i \<or> results p ! i \<noteq> None \<or> isl (snd (file_run b i))"
        using d(2) [of i] by (simp add: same q_def n_def)
      moreover have "held (step b w p) i" if "held p i" "i \<noteq> index"
        by (rule held_update_other [OF that(1) ws]) (use that(2) finish_last(2) in simp)
      ultimately show "held (step b w p) i \<or> results (step b w p) ! i \<noteq> None
          \<or> isl (snd (file_run b i))" using ilen by (cases "i = index") (auto simp: rs)
    next
      show "queue (step b w p) = []" by (simp add: same finish_last(3))
    next
      fix e' assume "Threw e' \<in> set (workers (step b w p))"
      then show "\<exists>i<length (screenshots b). snd (file_run b i) = Inl e'"
        using mem [of "Threw e'"] d(4) [of e'] by (auto simp: n_def)
    next
      fix e' assume "rejection (step b w p) = None"
      then show "Threw e' \<notin> set (workers (step b w p))"
        using mem [of "Threw e'"] d(5) [of e'] by (auto simp: same)
    next
      fix e' assume "rejection (step b w p) = Some e'"
      then show "Threw e' \<in> set (workers (step b w p))"
        using d(6) [of e'] keep [of "Threw e'"] by (simp add: same)
    qed
  next
    case (finish_next index k j rest)
    have ws: "workers (step b w p)
                = (workers p)[w := Running j (fst (file_run b j)) (snd (file_run b j))]"
      and rs: "results (step b w p) = (results p)
                 [index := Some \<lparr>result_key = k, filename = page_filename index\<rparr>]"
      and qu: "queue (step b w p) = rest"
      and same: "rejection (step b w p) = rejection p"
      by (simp_all add: finish_next(4))
    have "j # rest = [q..<n]" using o(2) finish_next(3) by simp
    then have q: "q < n" "j = q" "rest = [Suc q..<n]"
      by (cases "q < n"; simp add: upt_conv_Cons)+
    have q': "n - length rest = Suc q" using q by simp
    have run: "index < q" "snd (file_run b index) = Inr k"
      using o(3) [OF finish_next(1,2)] by simp_all
    have ilen: "index < length (results p)" using run(1) qn o(1) by simp
    have mem: "x \<in> set (workers p)" if "x \<in> set (workers (step b w p))" "\<not> is_running x" for x
      using mem_update_old [of x "workers p" w "Running j (fst (file_run b j)) (snd (file_run b j))"]
        that by (auto simp: ws)
    have keep: "x \<in> set (workers (step b w p))" if "x \<in> set (workers p)" "\<not> is_running x" for x
      unfolding ws by (rule mem_update_keep) (use that finish_next(2) in auto)
    show ?thesis
    proof (rule results_okI)
      fix i x assume a: "i < length (screenshots b)" "results (step b w p) ! i = Some x"
      show "snd (file_run b i) = Inr (result_key x) \<and> filename x = page_filename i"
      proof (cases "i = index")
        case True
        with a ilen run show ?thesis by (auto simp: rs)
      next
        case False
        with a d(1) [of i x] show ?thesis by (simp add: rs n_def)
      qed
    next
      fix i assume "i < length (screenshots b) - length (queue (step b w p))"
      then have iq: "i < Suc q" using q' by (simp add: qu n_def)
      show "held (step b w p) i \<or> results (step b w p) ! i \<noteq> None \<or> isl (snd (file_run b i))"
      proof (cases "i = q")
        case True
        have "held (step b w p) q"
          by (rule held_update_same [OF finish_next(1) ws [unfolded q(2)]])
        with True show ?thesis by simp
      next
        case False
        with iq have "i < q" by simp
        then have "held p i \<or> results p ! i \<noteq> None \<or> isl (snd (file_run b i))"
          using d(2) [of i] by simp
        moreover have "held (step b w p) i" if "held p i" "i \<noteq> index"
          by (rule held_update_other [OF that(1) ws]) (use that(2) finish_next(2) in simp)
        ultimately show ?thesis using ilen by (cases "i = index") (auto simp: rs)
      qed
    next
      assume "Returned \<in> set (workers (step b w p))"
      then have "Returned \<in> set (workers p)" using mem [of Returned] by simp
      with d(3) finish_next(3) show "queue (step b w p) = []" by simp
    next
      fix e' assume "Threw e' \<in> set (workers (step b w p))"
      then show "\<exists>i<length (screenshots b). snd (file_run b i) = Inl e'"
        using mem [of "Threw e'"] d(4) [of e'] by (auto simp: n_def)
    next
      fix e' assume "rejection (step b w p) = None"
      then show "Threw e' \<notin> set (workers (step b w p))"
        using mem [of "Threw e'"] d(5) [of e'] by (auto simp: same)
    next
      fix e' assume "rejection (step b w p) = Some e'"
      then show "Threw e' \<in> set (workers (step b w p))"
        using d(6) [of e'] keep [of "Threw e'"] by (simp add: same)
    qed
  qed
qed

lemma pool_results_ok_run:
  "pool_ok b (run b sched (start_pool b concurrency))
   \<and> results_ok b (run b sched (start_pool b concurrency))"
  by (rule run_invariant [where I = "\<lambda>p. pool_ok b p \<and> results_ok b p"])
     (simp_all add: pool_ok_start results_ok_start pool_ok_step results_ok_step)

section \<open>Every schedule can be completed\<close>

lemma sum_list_update_cost:
  assumes "w < length ws"
  shows "sum_list (map worker_cost (ws[w := x])) + worker_cost (ws ! w)
           = sum_list (map worker_cost ws) + worker_cost x"
  using assms
proof (induction ws arbitrary: w)
  case Nil
  then show ?case by simp
next
  case (Cons a ws)
  then show ?case by (cases w) auto
qed

lemma remaining_step:
  assumes "w < length (workers p)" and "is_running (workers p ! w)"
  shows "remaining b (step b w p) < remaining b p"
proof -
  from assms(2) obtain index evs r where run: "workers p ! w = Running index evs r"
    by (cases "workers p ! w") simp_all
  show ?thesis
  proof (cases evs)
    case (Cons e es)
    have cost: "sum_list (map worker_cost ((workers p)[w := Running index es r]))
          + Suc (Suc (length es))
        = sum_list (map worker_cost (workers p)) + Suc (length es)"
      using sum_list_update_cost [OF assms(1), of "Running index es r"] run Cons by simp
    show ?thesis
    proof (cases "progress_values [e] = []")
      case True
      show ?thesis
        using cost by (simp add: remaining_def step_event [OF assms(1) run [unfolded Cons] True])
    next
      case False
      then obtain u t where e: "e = OnProgress u t" by (cases e) simp_all
      show ?thesis
        using cost
        by (simp add: remaining_def step_progress [OF assms(1) run [unfolded Cons e]]
              file_progress_fields)
    qed
  next
    case Nil
    show ?thesis
    proof (cases r)
      case (Inl e)
      have "sum_list (map worker_cost ((workers p)[w := Threw e])) + Suc 0
          = sum_list (map worker_cost (workers p))"
        using sum_list_update_cost [OF assms(1), of "Threw e"] run Nil by simp
      then show ?thesis
        by (simp add: remaining_def step_throw [OF assms(1) run [unfolded Nil Inl]])
    next
      case (Inr k)
      show ?thesis
      proof (cases "queue p")
        case empty: Nil
        have "sum_list (map worker_cost ((workers p)[w := Returned])) + Suc 0
            = sum_list (map worker_cost (workers p))"
          using sum_list_update_cost [OF assms(1), of Returned] run \<open>evs = []\<close> by simp
        then show ?thesis
          by (simp add: remaining_def
                step_finish_last [OF assms(1) run [unfolded \<open>evs = []\<close> Inr] empty])
      next
        case (Cons j rest)
        have "sum_list (map worker_cost ((workers p)
                 [w := Running j (fst (file_run b j)) (snd (file_run b j))])) + Suc 0
            = sum_list (map worker_cost (workers p)) + Suc (length (fst (file_run b j)))"
          using sum_list_update_cost [OF assms(1),
              of "Running j (fst (file_run b j)) (snd (file_run b j))"] run \<open>evs = []\<close>
          by simp
        then show ?thesis
          by (simp add: remaining_def Cons
                step_finish_next [OF assms(1) run [unfolded \<open>evs = []\<close> Inr] Cons])
      qed
    qed
  qed
qed

lemma run_to_completion:
  "\<exists>more. list_all (\<lambda>w. \<not> is_running w) (workers (run b more p))"
proof (induction "remaining b p" arbitrary: p rule: less_induct)
  case less
  show ?case
  proof (cases "list_all (\<lambda>w. \<not> is_running w) (workers p)")
    case True
    then have "list_all (\<lambda>w. \<not> is_running w) (workers (run b [] p))" by simp
    then show ?thesis by blast
  next
    case False
    then obtain w where w: "w < length (workers p)" "is_running (workers p ! w)"
      by (auto simp: list_all_iff in_set_conv_nth)
    from less [OF remaining_step [OF w, of b]] obtain more where
      "list_all (\<lambda>w. \<not> is_running w) (workers (run b more (step b w p)))" by blast
    then have "list_all (\<lambda>w. \<not> is_running w) (workers (run b (w # more) p))" by simp
    then show ?thesis by blast
  qed
qed

section \<open>A batch in which every upload succeeds\<close>

lemma uploadScreenshot_succeeds:
  assumes "dataUrlToBlob dataUrl = Inr blob" and "upload_succeeds script"
  shows "snd (uploadScreenshot dataUrl fname h cb script) = Inr (session_key script)"
proof -
  from assms(2) obtain sess where c: "create_response script = CreateOk sess"
    and ps: "parts_succeed script sess" and co: "complete_response script = CompleteOk"
    by (cases "create_response script") (simp_all add: upload_succeeds_def)
  obtain evs r where up: "upload_parts h blob sess (part_response script) cb 1 [] = (evs, r)"
    by (cases "upload_parts h blob sess (part_response script) cb 1 []")
  have "\<forall>p. 1 \<le> p \<and> p \<le> totalParts sess \<longrightarrow> part_succeeds script p"
    using ps by (simp add: parts_succeed_def list_all_iff)
  then have "\<not> isl (snd (upload_parts h blob sess (part_response script) cb 1 []))"
    by (rule upload_parts_succeed)
  then obtain cp where cp: "r = Inr cp" using up by (cases r) simp_all
  show ?thesis
    by (simp add: uploadScreenshot_parts_done [OF assms(1) c up [unfolded cp]] co
          session_key_def c)
qed

lemma file_run_succeeds:
  assumes "batch_ok b" and "i < length (screenshots b)" and "upload_succeeds (env b i)"
  shows "snd (file_run b i) = Inr (session_key (env b i))"
proof -
  obtain blob where "dataUrlToBlob (screenshots b ! i) = Inr blob"
    using batch_ok_sizes(2) [OF assms(1,2)] by blast
  then show ?thesis
    unfolding file_run_def using assms(3) by (rule uploadScreenshot_succeeds)
qed

lemma not_running_cases:
  assumes "list_all (\<lambda>w. \<not> is_running w) ws" and "\<And>e. Threw e \<notin> set ws"
  shows "list_all (\<lambda>w. w = Returned) ws"
  unfolding list_all_iff
proof
  fix w assume w: "w \<in> set ws"
  with assms(1) have "\<not> is_running w" by (simp add: list_all_iff)
  show "w = Returned"
  proof (cases w)
    case (Running i es r)
    with \<open>\<not> is_running w\<close> show ?thesis by simp
  next
    case (Threw e)
    with w assms(2) [of e] show ?thesis by simp
  qed
qed

lemma successful_pool:
  assumes b: "batch_ok b"
    and ok: "\<forall>i<length (screenshots b). upload_succeeds (env b i)"
    and k: "1 \<le> concurrency \<or> screenshots b = []"
    and p_def: "p = run b sched (start_pool b concurrency)"
  shows "rejection p = None"
    and "list_all (\<lambda>w. \<not> is_running w) (workers p) \<Longrightarrow>
           settle p = Resolved (expected_results (length (screenshots b)) (env b))"
proof -
  define n where "n = length (screenshots b)"
  have po: "pool_ok b p" and ro: "results_ok b p"
    unfolding p_def using pool_results_ok_run [of b sched concurrency] by simp_all
  note d = results_okD [OF ro]
  have nothrow: "Threw e \<notin> set (workers p)" for e
  proof
    assume "Threw e \<in> set (workers p)"
    then obtain i where "i < length (screenshots b)" "snd (file_run b i) = Inl e"
      using d(4) by blast
    with file_run_succeeds [OF b, of i] ok show False by simp
  qed
  show rej: "rejection p = None"
  proof (cases "rejection p")
    case (Some e)
    with d(6) nothrow show ?thesis by blast
  qed simp
  show "settle p = Resolved (expected_results (length (screenshots b)) (env b))"
    if fin: "list_all (\<lambda>w. \<not> is_running w) (workers p)"
  proof -
    have ret: "list_all (\<lambda>w. w = Returned) (workers p)"
      using fin nothrow by (rule not_running_cases)
    have len: "length (workers p) = nat (min concurrency (int n))"
      by (simp add: p_def length_workers_run start_pool_closed_form n_def)
    have empty: "n - length (queue p) = n"
    proof (cases "workers p = []")
      case True
      with len have "min concurrency (int n) \<le> 0" by simp
      with k have "n = 0" by (auto simp: n_def min_def split: if_splits)
      then show ?thesis by simp
    next
      case False
      then obtain w where "w \<in> set (workers p)" by (cases "workers p") auto
      with ret have "Returned \<in> set (workers p)" by (auto simp: list_all_iff)
      with d(3) show ?thesis by simp
    qed
    have nothing_held: "\<not> held p i" for i
    proof
      assume "held p i"
      then obtain w es r where "w < length (workers p)" "workers p ! w = Running i es r"
        unfolding held_def by blast
      then have "Running i es r \<in> set (workers p)" by (metis nth_mem)
      with fin show False by (auto simp: list_all_iff)
    qed
    have slot: "results p ! i
        = Some \<lparr>result_key = session_key (env b i), filename = page_filename i\<rparr>"
      if "i < n" for i
    proof -
      have i: "i < length (screenshots b)" using that by (simp add: n_def)
      have s: "snd (file_run b i) = Inr (session_key (env b i))"
        using file_run_succeeds [OF b i] ok i by simp
      have "held p i \<or> results p ! i \<noteq> None \<or> isl (snd (file_run b i))"
        using d(2) [of i] that empty by (simp add: n_def)
      with nothing_held s obtain x where x: "results p ! i = Some x" by auto
      from d(1) [OF i x] s have "result_key x = session_key (env b i)"
        "filename x = page_filename i" by simp_all
      then have "x = \<lparr>result_key = session_key (env b i), filename = page_filename i\<rparr>"
        by simp
      with x show ?thesis by simp
    qed
    have rl: "length (results p) = n" using pool_okD(1) [OF po] by (simp add: n_def)
    have all: "map the (results p) = expected_results n (env b)"
      by (rule nth_equalityI) (simp_all add: rl expected_results_def slot)
    have "\<not> list_ex (\<lambda>r. r = None) (results p)"
    proof
      assume "list_ex (\<lambda>r. r = None) (results p)"
      then obtain i where "i < length (results p)" "results p ! i = None"
        by (auto simp: list_ex_iff in_set_conv_nth)
      with slot rl show False by simp
    qed
    with ret rej all show ?thesis by (simp add: settle_def n_def)
  qed
qed

lemma successful_batch:
  assumes "sizes_of shots = Inr sz"
    and "\<forall>i<length shots. upload_succeeds (environment i)"
    and "1 \<le> concurrency \<or> shots = []"
  shows "let outcome = uploadScreenshots shots report concurrency (Inr headers) environment;
             expected = expected_results (length shots) environment in
     (fst (outcome sched) = Pending \<or> fst (outcome sched) = Resolved expected)
     \<and> (list_all (\<lambda>w. \<not> is_running w) (workers (snd (outcome sched)))
          \<longrightarrow> fst (outcome sched) = Resolved expected)
     \<and> (\<exists>more. fst (outcome (sched @ more)) = Resolved expected)
     \<and> length expected = length shots
     \<and> (\<forall>i<length shots. expected ! i =
          \<lparr>result_key = session_key (environment i),
           filename = ''page_'' @ String (int i + 1) @ ''.png''\<rparr>)"
proof -
  define b where "b = \<lparr>screenshots = shots, onProgress = report, authHeaders = headers,
               sizePerScreenshot = sz, env = environment\<rparr>"
  define expected where "expected = expected_results (length shots) environment"
  have out: "uploadScreenshots shots report concurrency (Inr headers) environment s
      = (settle (run b s (start_pool b concurrency)), run b s (start_pool b concurrency))" for s
    by (simp add: uploadScreenshots_pool [OF assms(1)] Let_def b_def)
  have bo: "batch_ok b" by (simp add: batch_ok_def b_def assms(1))
  have ok: "\<forall>i<length (screenshots b). upload_succeeds (env b i)"
    using assms(2) by (simp add: b_def)
  have k: "1 \<le> concurrency \<or> screenshots b = []" using assms(3) by (simp add: b_def)
  have ex: "expected_results (length (screenshots b)) (env b) = expected"
    by (simp add: expected_def b_def)
  have rej: "rejection (run b s (start_pool b concurrency)) = None" for s
    by (rule successful_pool(1) [OF bo ok k refl])
  have fin: "settle (run b s (start_pool b concurrency)) = Resolved expected"
    if "list_all (\<lambda>w. \<not> is_running w) (workers (run b s (start_pool b concurrency)))" for s
    using successful_pool(2) [OF bo ok k refl that] by (simp add: ex)
  have c1: "fst (uploadScreenshots shots report concurrency (Inr headers) environment sched) = Pending
     \<or> fst (uploadScreenshots shots report concurrency (Inr headers) environment sched)
         = Resolved expected"
  proof (cases "list_all (\<lambda>w. w = Returned) (workers (run b sched (start_pool b concurrency)))")
    case True
    then have "list_all (\<lambda>w. \<not> is_running w) (workers (run b sched (start_pool b concurrency)))"
      by (auto simp: list_all_iff)
    then show ?thesis using fin by (simp add: out)
  next
    case False
    then show ?thesis using rej [of sched] by (simp add: out settle_def)
  qed
  have c2: "list_all (\<lambda>w. \<not> is_running w)
        (workers (snd (uploadScreenshots shots report concurrency (Inr headers) environment sched)))
     \<longrightarrow> fst (uploadScreenshots shots report concurrency (Inr headers) environment sched)
         = Resolved expected"
    using fin [of sched] by (simp add: out)
  obtain more where
    "list_all (\<lambda>w. \<not> is_running w)
       (workers (run b more (run b sched (start_pool b concurrency))))"
    using run_to_completion by blast
  then have "settle (run b (sched @ more) (start_pool b concurrency)) = Resolved expected"
    using fin [of "sched @ more"] by (simp add: run_append)
  then have c3: "\<exists>more. fst (uploadScreenshots shots report concurrency (Inr headers)
      environment (sched @ more)) = Resolved expected"
    unfolding out by auto
  have c4: "length expected = length shots"
    by (simp add: expected_def expected_results_def)
  have c5: "\<forall>i<length shots. expected ! i =
          \<lparr>result_key = session_key (environment i),
           filename = ''page_'' @ String (int i + 1) @ ''.png''\<rparr>"
    by (simp add: expected_def expected_results_def page_filename_def)
  show ?thesis
    unfolding Let_def expected_def [symmetric] using c1 c2 c3 c4 c5 by blast
qed

lemma no_workers_rejects:
  assumes "sizes_of shots = Inr sz" and "concurrency \<le> 0" and "shots \<noteq> []"
  shows "uploadScreenshots shots report concurrency (Inr headers) environment sched
     = (Rejected (Error ''Some screenshots failed to upload''),
        idle_pool\<lparr>queue := [0..<length shots], results := replicate (length shots) None\<rparr>)"
proof -
  define b where "b = \<lparr>screenshots = shots, onProgress = report, authHeaders = headers,
               sizePerScreenshot = sz, env = environment\<rparr>"
  define p where "p = idle_pool\<lparr>queue := [0..<length shots],
      results := replicate (length shots) None\<rparr>"
  have n: "nat (min concurrency (int (length shots))) = 0"
    using assms(2) by simp
  have st: "start_pool b concurrency = p"
    unfolding start_pool_closed_form by (simp add: b_def n p_def idle_pool_def)
  have w: "workers p = []" by (simp add: p_def idle_pool_def)
  have r: "run b sched (start_pool b concurrency) = p"
    unfolding st by (rule run_no_workers [OF w])
  have "0 < length shots" using assms(3) by simp
  then have "list_ex (\<lambda>r. r = None) (replicate (length shots) None)"
    by (cases "length shots") (simp_all add: list_ex_iff)
  then have s: "settle p = Rejected (Error ''Some screenshots failed to upload'')"
    by (simp add: settle_def p_def idle_pool_def)
  have "uploadScreenshots shots report concurrency (Inr headers) environment sched
      = (settle p, p)"
    unfolding uploadScreenshots_pool [OF assms(1)] Let_def b_def [symmetric] r ..
  then show ?thesis
    unfolding s unfolding p_def .
qed

text \<open>
  C1, as the code has it. Let the credential be available, every input decode and every
  upload succeed in the end (session created, each part accepted within its three attempts,
  completion accepted). When the concurrency is at least 1 (or the input is empty), then,
  whatever the order in which the pending operations of the workers complete: the call is
  never rejected; once no worker is busy any more it has resolved to exactly one outcome per
  input, the outcome at index \<open>i\<close> carrying the file name \<^verbatim>\<open>page_{i+1}.png\<close> and the storage
  key returned by the create-session call of input \<open>i\<close>; and every schedule can be continued
  to that point. When the concurrency is 0 or less and the input is not empty, the call is
  rejected with \<^verbatim>\<open>Some screenshots failed to upload\<close>, under every schedule and without any
  request.
\<close>

theorem uploads_in_order:
  assumes "sizes_of shots = Inr sz"
    and "\<forall>i<length shots. upload_succeeds (environment i)"
  shows "let outcome = uploadScreenshots shots report concurrency (Inr headers) environment;
             expected = expected_results (length shots) environment in
     (1 \<le> concurrency \<or> shots = [] \<longrightarrow>
        (fst (outcome sched) = Pending \<or> fst (outcome sched) = Resolved expected)
        \<and> (list_all (\<lambda>w. \<not> is_running w) (workers (snd (outcome sched)))
             \<longrightarrow> fst (outcome sched) = Resolved expected)
        \<and> (\<exists>more. fst (outcome (sched @ more)) = Resolved expected))
     \<and> (concurrency \<le> 0 \<and> shots \<noteq> [] \<longrightarrow>
          fst (outcome sched) = Rejected (Error ''Some screenshots failed to upload'')
          \<and> network (snd (outcome sched)) = [])
     \<and> length expected = length shots
     \<and> (\<forall>i<length shots. expected ! i =
          \<lparr>result_key = session_key (environment i),
           filename = ''page_'' @ String (int i + 1) @ ''.png''\<rparr>)"
proof -
  define expected where "expected = expected_results (length shots) environment"
  note pos = successful_batch [OF assms(1,2), of concurrency report headers sched,
      unfolded Let_def, folded expected_def]
  have c1: "1 \<le> concurrency \<or> shots = [] \<longrightarrow>
        (fst (uploadScreenshots shots report concurrency (Inr headers) environment sched) = Pending
         \<or> fst (uploadScreenshots shots report concurrency (Inr headers) environment sched)
             = Resolved expected)
        \<and> (list_all (\<lambda>w. \<not> is_running w)
              (workers (snd (uploadScreenshots shots report concurrency (Inr headers)
                 environment sched)))
             \<longrightarrow> fst (uploadScreenshots shots report concurrency (Inr headers) environment sched)
                 = Resolved expected)
        \<and> (\<exists>more. fst (uploadScreenshots shots report concurrency (Inr headers) environment
               (sched @ more)) = Resolved expected)"
    using pos by blast
  have c2: "concurrency \<le> 0 \<and> shots \<noteq> [] \<longrightarrow>
          fst (uploadScreenshots shots report concurrency (Inr headers) environment sched)
            = Rejected (Error ''Some screenshots failed to upload'')
          \<and> network (snd (uploadScreenshots shots report concurrency (Inr headers)
                 environment sched)) = []"
  proof
    assume "concurrency \<le> 0 \<and> shots \<noteq> []"
    then have "uploadScreenshots shots report concurrency (Inr headers) environment sched
     = (Rejected (Error ''Some screenshots failed to upload''),
        idle_pool\<lparr>queue := [0..<length shots], results := replicate (length shots) None\<rparr>)"
      using no_workers_rejects [OF assms(1)] by blast
    then show "fst (uploadScreenshots shots report concurrency (Inr headers) environment sched)
            = Rejected (Error ''Some screenshots failed to upload'')
          \<and> network (snd (uploadScreenshots shots report concurrency (Inr headers)
                 environment sched)) = []"
      by (simp add: idle_pool_def)
  qed
  have c4: "length expected = length shots"
    by (simp add: expected_def expected_results_def)
  have c5: "\<forall>i<length shots. expected ! i =
          \<lparr>result_key = session_key (environment i),
           filename = ''page_'' @ String (int i + 1) @ ''.png''\<rparr>"
    by (simp add: expected_def expected_results_def page_filename_def)
  show ?thesis
    unfolding Let_def expected_def [symmetric] using c1 c2 c4 c5 by blast
qed

theorem uploads_in_order_witness:
  "sizes_of [''data:image/png;base64,AAAA'', ''data:image/png;base64,AAAA''] = Inr [3, 3]
   \<and> upload_succeeds (accepting_environment 0) \<and> upload_succeeds (accepting_environment 1)
   \<and> fst (uploadScreenshots [''data:image/png;base64,AAAA'', ''data:image/png;base64,AAAA'']
        True 4 (Inr ''t'') accepting_environment
        [1, 0, 0, 1, 1, 0, 1, 0, 0, 1, 1, 0, 1, 0, 1, 0, 1, 0])
      = Resolved [\<lparr>result_key = ''k'', filename = ''page_1.png''\<rparr>,
                  \<lparr>result_key = ''k'', filename = ''page_2.png''\<rparr>]
   \<and> fst (uploadScreenshots [''data:image/png;base64,AAAA'', ''data:image/png;base64,AAAA'']
        True (- 2) (Inr ''t'') accepting_environment [1, 0, 0, 1])
      = Rejected (Error ''Some screenshots failed to upload'')"
proof -
  let ?shots = "[''data:image/png;base64,AAAA'', ''data:image/png;base64,AAAA'']"
  let ?sched = "[1, 0, 0, 1, 1, 0, 1, 0, 0, 1, 1, 0, 1, 0, 1, 0, 1, 0] :: nat list"
  have s: "sizes_of ?shots = Inr [3, 3]"
    by code_simp
  have u: "upload_succeeds (accepting_environment i)" for i
    unfolding accepting_environment_def by code_simp
  then have all: "\<forall>i<length ?shots. upload_succeeds (accepting_environment i)" by simp
  have fin: "list_all (\<lambda>w. \<not> is_running w)
      (workers (snd (uploadScreenshots ?shots True 4 (Inr ''t'') accepting_environment ?sched)))"
    by code_simp
  have e: "expected_results (length ?shots) accepting_environment
      = [\<lparr>result_key = ''k'', filename = ''page_1.png''\<rparr>,
         \<lparr>result_key = ''k'', filename = ''page_2.png''\<rparr>]"
    by code_simp
  have a: "fst (uploadScreenshots ?shots True 4 (Inr ''t'') accepting_environment ?sched)
      = Resolved [\<lparr>result_key = ''k'', filename = ''page_1.png''\<rparr>,
                  \<lparr>result_key = ''k'', filename = ''page_2.png''\<rparr>]"
    using uploads_in_order [OF s all, of True 4 "''t''" ?sched, unfolded Let_def] fin
    unfolding e by simp
  have b: "fst (uploadScreenshots ?shots True (- 2) (Inr ''t'') accepting_environment [1, 0, 0, 1])
      = Rejected (Error ''Some screenshots failed to upload'')"
    using uploads_in_order [OF s all, of True "- 2" "''t''" "[1, 0, 0, 1]", unfolded Let_def]
    by simp
  show ?thesis
    using s u [of 0] u [of 1] a b by blast
qed

text \<open>With a concurrency of 0 no worker is spawned, nothing is requested, and the call is
  rejected by the check of the results.\<close>

theorem zero_concurrency_counterexample:
  "sizes_of [''data:image/png;base64,AAAA''] = Inr [3]
   \<and> upload_succeeds (accepting_environment 0)
   \<and> uploadScreenshots [''data:image/png;base64,AAAA''] True 0 (Inr ''t'') accepting_environment []
     = (Rejected (Error ''Some screenshots failed to upload''),
        idle_pool\<lparr>queue := [0], results := [None]\<rparr>)"
  by code_simp

section \<open>A batch in which an upload fails\<close>





section \<open>The progress values of one upload under a covering plan\<close>

lemma estimate_sorted:
  assumes "0 \<le> (ps :: int)"
  shows "sorted (map (\<lambda>p. min (p * ps) sz) [1..j])"
proof -
  have "map (\<lambda>p. min (p * ps) sz) [1..j] ! a \<le> map (\<lambda>p. min (p * ps) sz) [1..j] ! c"
    if "a \<le> c" "c < length (map (\<lambda>p. min (p * ps) sz) [1..j])" for a c
  proof -
    have c: "1 + int c \<le> j" using that(2) by simp
    then have a: "1 + int a \<le> j" using that(1) by simp
    have "(1 + int a) * ps \<le> (1 + int c) * ps"
      using that(1) assms by (intro mult_right_mono) simp_all
    then show ?thesis using that a c by (simp add: min_le_iff_disj)
  qed
  then show ?thesis unfolding sorted_iff_nth_mono by blast
qed

lemma estimate_nonneg:
  assumes "0 \<le> (ps :: int)" and "0 \<le> sz" and "u \<in> set (map (\<lambda>p. min (p * ps) sz) [1..j])"
  shows "0 \<le> u"
  using assms by auto

lemma uploadScreenshot_progress_sorted:
  assumes "dataUrlToBlob dataUrl = Inr blob" and "create_response script = CreateOk sess"
    and "0 \<le> partSize sess"
  shows "sorted (progress_values (fst (uploadScreenshot dataUrl fname h True script)))"
    and "\<forall>u\<in>set (progress_values (fst (uploadScreenshot dataUrl fname h True script))). 0 \<le> u"
proof -
  obtain j where j: "progress_values (fst (uploadScreenshot dataUrl fname h True script))
          = map (\<lambda>p. min (p * partSize sess) (blob_size blob)) [1..j]"
    using uploadScreenshot_progress [OF assms(1,2), of fname h] by blast
  show "sorted (progress_values (fst (uploadScreenshot dataUrl fname h True script)))"
    unfolding j using assms(3) by (rule estimate_sorted)
  have "0 \<le> blob_size blob" by (simp add: blob_size_def)
  with assms(3)
  show "\<forall>u\<in>set (progress_values (fst (uploadScreenshot dataUrl fname h True script))). 0 \<le> u"
    unfolding j using estimate_nonneg by blast
qed

lemma uploadScreenshot_progress_last:
  assumes "dataUrlToBlob dataUrl = Inr blob" and "upload_succeeds script"
    and "plan_covers script (blob_size blob)"
  shows "progress_values (fst (uploadScreenshot dataUrl fname h True script)) \<noteq> []"
    and "last (progress_values (fst (uploadScreenshot dataUrl fname h True script)))
           = blob_size blob"
proof -
  from assms(3) obtain sess where c: "create_response script = CreateOk sess"
    and plan: "0 \<le> partSize sess" "1 \<le> totalParts sess"
      "blob_size blob \<le> totalParts sess * partSize sess"
    by (cases "create_response script") (simp_all add: plan_covers_def)
  have ok: "\<not> isl (snd (uploadScreenshot dataUrl fname h True script))"
    using uploadScreenshot_succeeds [OF assms(1,2), of fname h True] by simp
  obtain j where j: "progress_values (fst (uploadScreenshot dataUrl fname h True script))
          = map (\<lambda>p. min (p * partSize sess) (blob_size blob)) [1..j]"
      and jt: "j = max (totalParts sess) 0"
    using uploadScreenshot_progress [OF assms(1) c, of fname h] ok by blast
  have jt': "j = totalParts sess" using jt plan(2) by simp
  have up: "[1..j] = [1..j - 1] @ [j]" using plan(2) jt' by (intro upto_rec2) simp
  show "progress_values (fst (uploadScreenshot dataUrl fname h True script)) \<noteq> []"
    unfolding j up by simp
  show "last (progress_values (fst (uploadScreenshot dataUrl fname h True script)))
           = blob_size blob"
    unfolding j up using plan(3) jt' by simp
qed

lemma file_run_plan:
  assumes "batch_ok b" and "i < length (screenshots b)"
    and "plan_covers (env b i) (sizePerScreenshot b ! i)"
  shows "sorted (progress_values (fst (file_run b i)))"
    and "\<forall>u\<in>set (progress_values (fst (file_run b i))). 0 \<le> u"
    and "upload_succeeds (env b i) \<Longrightarrow> progress_values (fst (file_run b i)) \<noteq> []"
    and "upload_succeeds (env b i) \<Longrightarrow>
           last (progress_values (fst (file_run b i))) = sizePerScreenshot b ! i"
proof -
  obtain blob where d: "dataUrlToBlob (screenshots b ! i) = Inr blob"
    and s: "sizePerScreenshot b ! i = blob_size blob"
    using batch_ok_sizes(2) [OF assms(1,2)] by blast
  from assms(3) obtain sess where c: "create_response (env b i) = CreateOk sess"
    and ps: "0 \<le> partSize sess"
    by (cases "create_response (env b i)") (simp_all add: plan_covers_def)
  show "sorted (progress_values (fst (file_run b i)))"
    unfolding file_run_def by (rule uploadScreenshot_progress_sorted(1) [OF d c ps])
  show "\<forall>u\<in>set (progress_values (fst (file_run b i))). 0 \<le> u"
    unfolding file_run_def by (rule uploadScreenshot_progress_sorted(2) [OF d c ps])
  show "progress_values (fst (file_run b i)) \<noteq> []" if "upload_succeeds (env b i)"
    unfolding file_run_def
    by (rule uploadScreenshot_progress_last(1) [OF d that]) (use assms(3) s in simp)
  show "last (progress_values (fst (file_run b i))) = sizePerScreenshot b ! i"
    if "upload_succeeds (env b i)"
    unfolding file_run_def s
    by (rule uploadScreenshot_progress_last(2) [OF d that]) (use assms(3) s in simp)
qed

section \<open>The reports grow\<close>

lemma progress_okI:
  assumes "\<And>w i es r u v. w < length (workers p) \<Longrightarrow> workers p ! w = Running i es r \<Longrightarrow>
           u \<in> set (progress_values es) \<Longrightarrow> map_of (bytesPerScreenshot p) i = Some v \<Longrightarrow> v \<le> u"
    and "sorted (map uploadedBytes (progress_calls p))"
    and "\<And>pr. pr \<in> set (progress_calls p) \<Longrightarrow>
           uploadedBytes pr \<le> sum_list (map snd (bytesPerScreenshot p))"
  shows "progress_ok p"
  unfolding progress_ok_def using assms by blast

lemma progress_okD:
  assumes "progress_ok p"
  shows "\<And>w i es r u v. w < length (workers p) \<Longrightarrow> workers p ! w = Running i es r \<Longrightarrow>
           u \<in> set (progress_values es) \<Longrightarrow> map_of (bytesPerScreenshot p) i = Some v \<Longrightarrow> v \<le> u"
    and "sorted (map uploadedBytes (progress_calls p))"
    and "\<And>pr. pr \<in> set (progress_calls p) \<Longrightarrow>
           uploadedBytes pr \<le> sum_list (map snd (bytesPerScreenshot p))"
  using assms unfolding progress_ok_def by blast+

lemma progress_ok_start: "progress_ok (start_pool b concurrency)"
  by (simp add: progress_ok_def start_pool_closed_form idle_pool_def)

lemma running_sorted:
  assumes "batch_ok b"
    and "\<forall>i<length (screenshots b). plan_covers (env b i) (sizePerScreenshot b ! i)"
    and "pool_ok b p" and "w < length (workers p)" and "workers p ! w = Running i es r"
  shows "sorted (progress_values es)" and "\<forall>u\<in>set (progress_values es). 0 \<le> u"
proof -
  from pool_okD(3) [OF assms(3,4,5)] obtain pre where
    i: "i < length (screenshots b) - length (queue p)"
    and pre: "fst (file_run b i) = pre @ es" by blast
  have i': "i < length (screenshots b)" using i by simp
  with assms(2) have plan: "plan_covers (env b i) (sizePerScreenshot b ! i)" by simp
  have all: "progress_values (fst (file_run b i)) = progress_values pre @ progress_values es"
    by (simp add: pre progress_values_append)
  show "sorted (progress_values es)"
    using file_run_plan(1) [OF assms(1) i' plan] by (simp add: all sorted_append)
  show "\<forall>u\<in>set (progress_values es). 0 \<le> u"
    using file_run_plan(2) [OF assms(1) i' plan] by (simp add: all)
qed

lemma sum_map_set_grows:
  assumes "\<And>v. map_of m k = Some v \<Longrightarrow> v \<le> x" and "0 \<le> x"
  shows "sum_list (map snd m) \<le> sum_list (map snd (map_set k x m))"
  using assms by (cases "map_of m k") (simp_all add: sum_map_set)

lemma progress_ok_step:
  assumes b: "batch_ok b"
    and plans: "\<forall>i<length (screenshots b). plan_covers (env b i) (sizePerScreenshot b ! i)"
    and ok: "pool_ok b p" and bts: "bytes_ok b p" and pr: "progress_ok p"
  shows "progress_ok (step b w p)"
proof -
  define n where "n = length (screenshots b)"
  define q where "q = n - length (queue p)"
  define m where "m = bytesPerScreenshot p"
  note d = progress_okD [OF pr, folded m_def]
  note o = pool_okD [OF ok, folded n_def, folded q_def]
  note be = bytes_okD [OF bts, folded n_def, folded q_def m_def]
  have qn: "q \<le> n" by (simp add: q_def)
  show ?thesis
  proof (cases b w p rule: step_cases)
    case idle
    with pr show ?thesis by simp
  next
    case (event index e es r)
    have ws: "workers (step b w p) = (workers p)[w := Running index es r]"
      and same: "bytesPerScreenshot (step b w p) = m" "progress_calls (step b w p) = progress_calls p"
      by (simp_all add: event(4) m_def)
    have pv: "progress_values (e # es) = progress_values es"
      using event(3) progress_values_append [of "[e]" es] by simp
    show ?thesis
    proof (rule progress_okI)
      fix w' i es' r' u v
      assume a: "w' < length (workers (step b w p))" "workers (step b w p) ! w' = Running i es' r'"
        "u \<in> set (progress_values es')" "map_of (bytesPerScreenshot (step b w p)) i = Some v"
      show "v \<le> u"
      proof (cases "w' = w")
        case True
        with a event(1) have "i = index" "es' = es" by (simp_all add: ws)
        with a(3,4) show ?thesis using d(1) [OF event(1,2), of u v] by (simp add: pv same)
      next
        case False
        with a show ?thesis using d(1) [of w' i es' r' u v] by (simp add: ws same)
      qed
    qed (use d(2,3) in \<open>simp_all add: same\<close>)
  next
    case (throw index e)
    have ws: "workers (step b w p) = (workers p)[w := Threw e]"
      and same: "bytesPerScreenshot (step b w p) = m" "progress_calls (step b w p) = progress_calls p"
      by (simp_all add: throw(3) m_def)
    show ?thesis
    proof (rule progress_okI)
      fix w' i es' r' u v
      assume a: "w' < length (workers (step b w p))" "workers (step b w p) ! w' = Running i es' r'"
        "u \<in> set (progress_values es')" "map_of (bytesPerScreenshot (step b w p)) i = Some v"
      then have "w' \<noteq> w" using throw(1) by (auto simp: ws)
      with a show "v \<le> u" using d(1) [of w' i es' r' u v] by (simp add: ws same)
    qed (use d(2,3) in \<open>simp_all add: same\<close>)
  next
    case (progress index u0 t es r)
    define m' where "m' = map_set index u0 m"
    have ws: "workers (step b w p) = (workers p)[w := Running index es r]"
      and bm: "bytesPerScreenshot (step b w p) = m'"
      and calls: "progress_calls (step b w p) = progress_calls p @
          (if onProgress b then
             [\<lparr>uploadedBytes = sum_list (map snd m'), totalBytes = sum_list (sizePerScreenshot b),
               percent = js_percent (sum_list (map snd m')) (sum_list (sizePerScreenshot b)),
               currentFile = length m', totalFiles = length (screenshots b)\<rparr>]
           else [])"
      by (simp_all add: progress(3) file_progress_def Let_def m'_def m_def)
    have srt: "sorted (u0 # progress_values es)" and pos: "0 \<le> u0"
      using running_sorted [OF b plans ok progress(1,2)] by simp_all
    have old: "v \<le> u0" if "map_of m index = Some v" for v
      using d(1) [OF progress(1,2), of u0 v] that by simp
    have grows: "sum_list (map snd m) \<le> sum_list (map snd m')"
      unfolding m'_def using old pos by (rule sum_map_set_grows)
    show ?thesis
    proof (rule progress_okI)
      fix w' i es' r' u v
      assume a: "w' < length (workers (step b w p))" "workers (step b w p) ! w' = Running i es' r'"
        "u \<in> set (progress_values es')" "map_of (bytesPerScreenshot (step b w p)) i = Some v"
      show "v \<le> u"
      proof (cases "w' = w")
        case True
        with a progress(1) have "i = index" "es' = es" by (simp_all add: ws)
        with a(3,4) srt show ?thesis by (simp add: bm m'_def map_of_map_set)
      next
        case False
        with a have old': "w' < length (workers p)" "workers p ! w' = Running i es' r'"
          by (simp_all add: ws)
        have "i \<noteq> index"
        proof
          assume "i = index"
          with o(4) [OF progress(1) old'(1) progress(2)] old'(2) False show False by simp
        qed
        with a(4) have "map_of m i = Some v" by (simp add: bm m'_def map_of_map_set)
        with d(1) [OF old' a(3)] show ?thesis by simp
      qed
    next
      have "\<forall>x\<in>set (map uploadedBytes (progress_calls p)). x \<le> sum_list (map snd m')"
        using d(3) grows by fastforce
      then show "sorted (map uploadedBytes (progress_calls (step b w p)))"
        using d(2) by (simp add: calls sorted_append)
    next
      fix c assume "c \<in> set (progress_calls (step b w p))"
      then have "c \<in> set (progress_calls p) \<or> uploadedBytes c = sum_list (map snd m')"
        by (auto simp: calls split: if_splits)
      then show "uploadedBytes c \<le> sum_list (map snd (bytesPerScreenshot (step b w p)))"
        using d(3) [of c] grows by (auto simp: bm)
    qed
  next
    case (finish_last index k)
    define m' where "m' = map_set index (sizePerScreenshot b ! index) m"
    have ws: "workers (step b w p) = (workers p)[w := Returned]"
      and bm: "bytesPerScreenshot (step b w p) = m'"
      and calls: "progress_calls (step b w p) = progress_calls p"
      by (simp_all add: finish_last(4) m'_def m_def)
    have iq: "index < q" using o(3) [OF finish_last(1,2)] by simp
    have old: "v \<le> sizePerScreenshot b ! index" if "map_of m index = Some v" for v
      using be(2) that by blast
    have pos: "0 \<le> sizePerScreenshot b ! index"
      using batch_ok_sizes(3) [OF b, of index] iq qn by (simp add: n_def)
    have grows: "sum_list (map snd m) \<le> sum_list (map snd m')"
      unfolding m'_def using old pos by (rule sum_map_set_grows)
    show ?thesis
    proof (rule progress_okI)
      fix w' i es' r' u v
      assume a: "w' < length (workers (step b w p))" "workers (step b w p) ! w' = Running i es' r'"
        "u \<in> set (progress_values es')" "map_of (bytesPerScreenshot (step b w p)) i = Some v"
      then have "w' \<noteq> w" using finish_last(1) by (auto simp: ws)
      with a have old': "w' < length (workers p)" "workers p ! w' = Running i es' r'"
        by (simp_all add: ws)
      have "i \<noteq> index"
      proof
        assume "i = index"
        with o(4) [OF finish_last(1) old'(1) finish_last(2)] old'(2) \<open>w' \<noteq> w\<close> show False by simp
      qed
      with a(4) have "map_of m i = Some v" by (simp add: bm m'_def map_of_map_set)
      with d(1) [OF old' a(3)] show "v \<le> u" by simp
    next
      show "sorted (map uploadedBytes (progress_calls (step b w p)))"
        using d(2) by (simp add: calls)
    next
      fix c assume "c \<in> set (progress_calls (step b w p))"
      then show "uploadedBytes c \<le> sum_list (map snd (bytesPerScreenshot (step b w p)))"
        using d(3) [of c] grows by (simp add: calls bm)
    qed
  next
    case (finish_next index k j rest)
    define m' where "m' = map_set index (sizePerScreenshot b ! index) m"
    have ws: "workers (step b w p)
                = (workers p)[w := Running j (fst (file_run b j)) (snd (file_run b j))]"
      and bm: "bytesPerScreenshot (step b w p) = m'"
      and calls: "progress_calls (step b w p) = progress_calls p"
      by (simp_all add: finish_next(4) m'_def m_def)
    have "j # rest = [q..<n]" using o(2) finish_next(3) by simp
    then have jq: "j = q" by (cases "q < n"; simp add: upt_conv_Cons)
    have iq: "index < q" using o(3) [OF finish_next(1,2)] by simp
    have old: "v \<le> sizePerScreenshot b ! index" if "map_of m index = Some v" for v
      using be(2) that by blast
    have pos: "0 \<le> sizePerScreenshot b ! index"
      using batch_ok_sizes(3) [OF b, of index] iq qn by (simp add: n_def)
    have grows: "sum_list (map snd m) \<le> sum_list (map snd m')"
      unfolding m'_def using old pos by (rule sum_map_set_grows)
    show ?thesis
    proof (rule progress_okI)
      fix w' i es' r' u v
      assume a: "w' < length (workers (step b w p))" "workers (step b w p) ! w' = Running i es' r'"
        "u \<in> set (progress_values es')" "map_of (bytesPerScreenshot (step b w p)) i = Some v"
      show "v \<le> u"
      proof (cases "w' = w")
        case True
        with a finish_next(1) have "i = q" by (simp add: ws jq)
        with a(4) iq have "map_of m q = Some v" by (simp add: bm m'_def map_of_map_set)
        with be(2) have "q < q" by blast
        then show ?thesis by simp
      next
        case False
        with a have old': "w' < length (workers p)" "workers p ! w' = Running i es' r'"
          by (simp_all add: ws)
        have "i \<noteq> index"
        proof
          assume "i = index"
          with o(4) [OF finish_next(1) old'(1) finish_next(2)] old'(2) False show False by simp
        qed
        with a(4) have "map_of m i = Some v" by (simp add: bm m'_def map_of_map_set)
        with d(1) [OF old' a(3)] show ?thesis by simp
      qed
    next
      show "sorted (map uploadedBytes (progress_calls (step b w p)))"
        using d(2) by (simp add: calls)
    next
      fix c assume "c \<in> set (progress_calls (step b w p))"
      then show "uploadedBytes c \<le> sum_list (map snd (bytesPerScreenshot (step b w p)))"
        using d(3) [of c] grows by (simp add: calls bm)
    qed
  qed
qed

end
